theory Spec2Isabelle
  imports Complex_Main
begin

section \<open>Data model\<close>

text \<open>
  The numeric kernel of optimize-me-js: \<^verbatim>\<open>src/matrix/matrixOperations.js\<close> and
  \<^verbatim>\<open>src/matrix/signalProcessing.js\<close>.

  A JavaScript number is an IEEE-754 double. The embedding takes a finite double as the
  real number it denotes and every arithmetic operation as the exact operation on reals:
  rounding error, overflow and signed zeros are not represented. The one place where a
  non-finite value is the subject of a claim, the division in \<^verbatim>\<open>histogramEqualization\<close>,
  is modelled with the explicit type \<open>jsnum\<close> below.

  A matrix is an array of rows. Reads \<open>xs ! i\<close> are in range on the shapes the theorems
  assume (square matrices, rectangular images); what JavaScript does on a read of
  \<^verbatim>\<open>undefined[...]\<close> that those shapes do not exclude (the first row of an empty
  matrix) is written out as \<open>TypeError\<close>.
\<close>

type_synonym matrix = "real list list"

datatype error =
    TypeError           \<comment> \<open>runtime: property read on \<^verbatim>\<open>undefined\<close>\<close>
  | RangeError          \<comment> \<open>runtime: \<^verbatim>\<open>Array(n)\<close> with negative \<^verbatim>\<open>n\<close>\<close>
  | InvalidLength       \<comment> \<open>\<^verbatim>\<open>'Input length must be a power of 2'\<close>\<close>
  | SingularMatrix      \<comment> \<open>\<^verbatim>\<open>'Matrix is singular and cannot be inverted'\<close>\<close>
  | NoUniqueSolution    \<comment> \<open>\<^verbatim>\<open>'System has no unique solution'\<close>\<close>
  | ZeroPivot           \<comment> \<open>\<^verbatim>\<open>'Zero pivot encountered'\<close>\<close>

text \<open>The literal \<^verbatim>\<open>1e-10\<close> of the pivot checks.\<close>

definition tolerance :: real where
  "tolerance = 1 / 10 ^ 10"

text \<open>
  A counted loop \<^verbatim>\<open>for (let i = a; i < b; i++)\<close> whose body does not touch \<open>i\<close> or \<open>b\<close> is
  \<open>fold body [a..<b]\<close> on the state the body updates. When the body can throw, the loop
  is \<open>fold_err\<close>, which stops at the first error.
\<close>

fun fold_err :: "('a \<Rightarrow> 's \<Rightarrow> error + 's) \<Rightarrow> 'a list \<Rightarrow> 's \<Rightarrow> error + 's" where
  "fold_err f [] s = Inr s"
| "fold_err f (x # xs) s = (case f x s of Inl e \<Rightarrow> Inl e | Inr s' \<Rightarrow> fold_err f xs s')"

text \<open>\<^verbatim>\<open>Array(rows).fill(null).map(() => Array(cols).fill(0))\<close>\<close>

definition zeros :: "nat \<Rightarrow> nat \<Rightarrow> matrix" where
  "zeros rows cols = replicate rows (replicate cols 0)"

text \<open>The assignment \<^verbatim>\<open>m[i][j] = v\<close>.\<close>

definition set_entry :: "'a list list \<Rightarrow> nat \<Rightarrow> nat \<Rightarrow> 'a \<Rightarrow> 'a list list" where
  "set_entry m i j v = m[i := (m ! i)[j := v]]"

section \<open>matrixOperations.js\<close>

subsection \<open>matrixMultiply\<close>


subsection \<open>identityMatrix\<close>

definition identityMatrix :: "nat \<Rightarrow> matrix" where
  "identityMatrix n = fold (\<lambda>i result. set_entry result i i 1) [0..<n] (zeros n n)"

subsection \<open>Partial pivoting (the same lines in matrixInverse and linearEquationSolver)\<close>

text \<open>
  \<^verbatim>\<open>let maxRow = col;
  for (let row = col + 1; row < n; row++)
    if (Math.abs(augmented[row][col]) > Math.abs(augmented[maxRow][col])) maxRow = row;\<close>
\<close>

definition findMaxRow :: "matrix \<Rightarrow> nat \<Rightarrow> nat \<Rightarrow> nat" where
  "findMaxRow augmented n col =
     fold (\<lambda>row maxRow.
             if \<bar>augmented ! row ! col\<bar> > \<bar>augmented ! maxRow ! col\<bar> then row else maxRow)
          [col + 1..<n] col"

text \<open>\<^verbatim>\<open>[augmented[col], augmented[maxRow]] = [augmented[maxRow], augmented[col]]\<close>\<close>

definition swapRows :: "matrix \<Rightarrow> nat \<Rightarrow> nat \<Rightarrow> matrix" where
  "swapRows augmented col maxRow =
     (augmented[col := augmented ! maxRow])[maxRow := augmented ! col]"

subsection \<open>matrixInverse\<close>

text \<open>The augmented matrix \<open>[A | I]\<close>.\<close>

definition augmentIdentity :: "matrix \<Rightarrow> matrix" where
  "augmentIdentity m =
     (let n = length m
      in map (\<lambda>(i, row). row @ (replicate n 0)[i := 1]) (enumerate 0 m))"

text \<open>\<^verbatim>\<open>const pivot = augmented[col][col]; for (j < 2n) augmented[col][j] /= pivot;\<close>\<close>

definition scalePivotRow :: "matrix \<Rightarrow> nat \<Rightarrow> nat \<Rightarrow> matrix" where
  "scalePivotRow augmented n col =
     (let pivot = augmented ! col ! col
      in fold (\<lambda>j augmented. set_entry augmented col j (augmented ! col ! j / pivot))
           [0..<2 * n] augmented)"

text \<open>The elimination of column \<open>col\<close> from every other row.\<close>

definition eliminateColumn :: "matrix \<Rightarrow> nat \<Rightarrow> nat \<Rightarrow> matrix" where
  "eliminateColumn augmented n col =
     fold (\<lambda>row augmented.
             if row \<noteq> col then
               let factor = augmented ! row ! col
               in fold (\<lambda>j augmented.
                          set_entry augmented row j
                            (augmented ! row ! j - factor * augmented ! col ! j))
                    [0..<2 * n] augmented
             else augmented)
          [0..<n] augmented"

text \<open>One iteration of the Gauss-Jordan loop, for the pivot column \<open>col\<close>.\<close>

definition gaussJordanStep :: "nat \<Rightarrow> nat \<Rightarrow> matrix \<Rightarrow> error + matrix" where
  "gaussJordanStep n col augmented =
     (let maxRow = findMaxRow augmented n col;
          augmented = swapRows augmented col maxRow
      in if \<bar>augmented ! col ! col\<bar> < tolerance then Inl SingularMatrix
         else Inr (eliminateColumn (scalePivotRow augmented n col) n col))"

definition matrixInverse :: "matrix \<Rightarrow> error + matrix" where
  "matrixInverse m =
     (let n = length m
      in case fold_err (gaussJordanStep n) [0..<n] (augmentIdentity m) of
           Inl e \<Rightarrow> Inl e
         | Inr augmented \<Rightarrow> Inr (map (drop n) augmented))"

subsection \<open>matrixDeterminant\<close>

text \<open>\<^verbatim>\<open>row.filter((_, j) => j !== col)\<close>\<close>

definition dropColumn :: "nat \<Rightarrow> 'a list \<Rightarrow> 'a list" where
  "dropColumn col row = map snd (filter (\<lambda>(j, _). j \<noteq> col) (enumerate 0 row))"

function matrixDeterminant :: "matrix \<Rightarrow> real" where
  "matrixDeterminant m =
     (let n = length m
      in if n = 1 then m ! 0 ! 0
         else if n = 2 then m ! 0 ! 0 * m ! 1 ! 1 - m ! 0 ! 1 * m ! 1 ! 0
         else
           fold (\<lambda>col det.
                   let minor = map (dropColumn col) (drop 1 m);
                       sign = (if col mod 2 = 0 then 1 else - 1)
                   in det + sign * m ! 0 ! col * matrixDeterminant minor)
                [0..<n] 0)"
  by pat_completeness auto
termination
  by (relation "measure length") auto

declare matrixDeterminant.simps [simp del]

subsection \<open>luDecomposition\<close>

text \<open>The inner accumulation \<^verbatim>\<open>for (k < m) sum += L[i][k] * U[k][j]\<close>.\<close>

definition luSum :: "matrix \<Rightarrow> matrix \<Rightarrow> nat \<Rightarrow> nat \<Rightarrow> nat \<Rightarrow> real" where
  "luSum L U i j m = fold (\<lambda>k sum. sum + L ! i ! k * U ! k ! j) [0..<m] 0"

text \<open>The upper-triangular pass of column \<open>j\<close>: rows \<open>0..j\<close> of \<open>U\<close>.\<close>

definition luUpper :: "matrix \<Rightarrow> nat \<Rightarrow> matrix \<Rightarrow> matrix \<Rightarrow> matrix" where
  "luUpper A j L U =
     fold (\<lambda>i U. set_entry U i j (A ! i ! j - luSum L U i j i)) [0..<j + 1] U"

text \<open>The lower-triangular pass of column \<open>j\<close>: rows \<open>j+1..n-1\<close> of \<open>L\<close>, with the pivot check.\<close>

definition luLower :: "matrix \<Rightarrow> nat \<Rightarrow> nat \<Rightarrow> matrix \<Rightarrow> matrix \<Rightarrow> error + matrix" where
  "luLower A n j U L =
     fold_err (\<lambda>i L.
                 let sum = luSum L U i j j
                 in if \<bar>U ! j ! j\<bar> < tolerance then Inl ZeroPivot
                    else Inr (set_entry L i j ((A ! i ! j - sum) / U ! j ! j)))
              [j + 1..<n] L"

definition luColumn :: "matrix \<Rightarrow> nat \<Rightarrow> nat \<Rightarrow> matrix \<times> matrix \<Rightarrow> error + matrix \<times> matrix" where
  "luColumn A n j LU =
     (case LU of (L, U) \<Rightarrow>
        let U = luUpper A j L U
        in case luLower A n j U L of
             Inl e \<Rightarrow> Inl e
           | Inr L \<Rightarrow> Inr (L, U))"

text \<open>The result \<^verbatim>\<open>{ L, U }\<close> is the pair \<open>(L, U)\<close>.\<close>

definition luDecomposition :: "matrix \<Rightarrow> error + matrix \<times> matrix" where
  "luDecomposition A =
     (let n = length A;
          L = fold (\<lambda>i L. set_entry L i i 1) [0..<n] (zeros n n);
          U = zeros n n
      in fold_err (luColumn A n) [0..<n] (L, U))"

subsection \<open>linearEquationSolver\<close>

definition augmentVector :: "matrix \<Rightarrow> real list \<Rightarrow> matrix" where
  "augmentVector A b = map (\<lambda>(i, row). row @ [b ! i]) (enumerate 0 A)"

definition eliminateBelow :: "matrix \<Rightarrow> nat \<Rightarrow> nat \<Rightarrow> matrix" where
  "eliminateBelow augmented n col =
     fold (\<lambda>row augmented.
             let factor = augmented ! row ! col / augmented ! col ! col
             in fold (\<lambda>j augmented.
                        set_entry augmented row j
                          (augmented ! row ! j - factor * augmented ! col ! j))
                  [col..<n + 1] augmented)
          [col + 1..<n] augmented"

definition forwardStep :: "nat \<Rightarrow> nat \<Rightarrow> matrix \<Rightarrow> error + matrix" where
  "forwardStep n col augmented =
     (let maxRow = findMaxRow augmented n col;
          augmented = swapRows augmented col maxRow
      in if \<bar>augmented ! col ! col\<bar> < tolerance then Inl NoUniqueSolution
         else Inr (eliminateBelow augmented n col))"

text \<open>Back substitution, \<^verbatim>\<open>for (let i = n - 1; i >= 0; i--)\<close>.\<close>

definition backSubstitute :: "matrix \<Rightarrow> nat \<Rightarrow> real list" where
  "backSubstitute augmented n =
     fold (\<lambda>i x.
             let x = x[i := augmented ! i ! n];
                 x = fold (\<lambda>j x. x[i := x ! i - augmented ! i ! j * x ! j]) [i + 1..<n] x
             in x[i := x ! i / augmented ! i ! i])
          (rev [0..<n]) (replicate n 0)"

definition linearEquationSolver :: "matrix \<Rightarrow> real list \<Rightarrow> error + real list" where
  "linearEquationSolver A b =
     (let n = length A
      in case fold_err (forwardStep n) [0..<n] (augmentVector A b) of
           Inl e \<Rightarrow> Inl e
         | Inr augmented \<Rightarrow> Inr (backSubstitute augmented n))"

section \<open>signalProcessing.js\<close>

subsection \<open>convolution1d\<close>

text \<open>
  \<^verbatim>\<open>Array(outputLen)\<close> throws a RangeError when \<open>outputLen\<close> is negative, which is the
  case exactly when both arguments are empty. The parameter \<^verbatim>\<open>kernel\<close> is written
  \<open>kernel'\<close>, since \<open>kernel\<close> is a constant of HOL.
\<close>

definition convolution1d :: "real list \<Rightarrow> real list \<Rightarrow> error + real list" where
  "convolution1d signal kernel' =
     (let signalLen = int (length signal);
          kernelLen = int (length kernel');
          outputLen = signalLen + kernelLen - 1
      in if outputLen < 0 then Inl RangeError
         else
           Inr (fold (\<lambda>i result.
                  fold (\<lambda>j result.
                    let signalIdx = int i - int j
                    in if signalIdx \<ge> 0 \<and> signalIdx < signalLen
                       then result[i := result ! i + signal ! nat signalIdx * kernel' ! j]
                       else result)
                  [0..<nat kernelLen] result)
                [0..<nat outputLen] (replicate (nat outputLen) 0)))"

subsection \<open>fft and ifft\<close>

text \<open>The complex result \<^verbatim>\<open>{ real, imag }\<close>.\<close>

record spectrum =
  real_part :: "real list"
  imag_part :: "real list"

text \<open>
  \<^verbatim>\<open>for (let i = 0; i < n; i++) if (i % 2 === 0) even.push(x[i]); else odd.push(x[i]);\<close>
\<close>

definition splitEvenOdd :: "real list \<Rightarrow> real list \<times> real list" where
  "splitEvenOdd x =
     fold (\<lambda>i (evenPart, oddPart).
             if i mod 2 = 0 then (evenPart @ [x ! i], oddPart)
             else (evenPart, oddPart @ [x ! i]))
          [0..<length x] ([], [])"

text \<open>The butterfly loop \<^verbatim>\<open>for (let k = 0; k < n / 2; k++)\<close>; it runs for even \<open>n\<close> only.\<close>

definition fftCombine :: "nat \<Rightarrow> spectrum \<Rightarrow> spectrum \<Rightarrow> spectrum" where
  "fftCombine n fftEven fftOdd =
     (case fold (\<lambda>k (re, im).
                   let angle = - 2 * pi * real k / real n;
                       c = cos angle;
                       s = sin angle;
                       tReal = c * real_part fftOdd ! k - s * imag_part fftOdd ! k;
                       tImag = c * imag_part fftOdd ! k + s * real_part fftOdd ! k;
                       re = re[k := real_part fftEven ! k + tReal];
                       im = im[k := imag_part fftEven ! k + tImag];
                       re = re[k + n div 2 := real_part fftEven ! k - tReal];
                       im = im[k + n div 2 := imag_part fftEven ! k - tImag]
                   in (re, im))
                [0..<n div 2] (replicate n 0, replicate n 0)
      of (re, im) \<Rightarrow> \<lparr>real_part = re, imag_part = im\<rparr>)"

text \<open>
  The recursion has no base case for the empty list (\<open>0 % 2 === 0\<close>, and both halves of
  an empty list are empty), so \<open>fft\<close> is a partial function: \<open>None\<close> is a call that
  never returns (in JavaScript it ends when the call stack is exhausted).
\<close>

partial_function (option) fft :: "real list \<Rightarrow> (error + spectrum) option" where
  "fft x =
     (let n = length x in
      if n = 1 then Some (Inr \<lparr>real_part = [x ! 0], imag_part = [0]\<rparr>)
      else if n mod 2 \<noteq> 0 then Some (Inl InvalidLength)
      else
        Option.bind (fft (fst (splitEvenOdd x))) (\<lambda>r.
          case r of
            Inl e \<Rightarrow> Some (Inl e)
          | Inr fftEven \<Rightarrow>
              Option.bind (fft (snd (splitEvenOdd x))) (\<lambda>r.
                case r of
                  Inl e \<Rightarrow> Some (Inl e)
                | Inr fftOdd \<Rightarrow> Some (Inr (fftCombine n fftEven fftOdd)))))"

text \<open>
  \<^verbatim>\<open>const conjugateImag = X.imag.map(v => -v);
  const result = fft(X.real.map((r, i) => r));
  return result.real.map(v => v / n);\<close>
\<close>

definition ifft :: "spectrum \<Rightarrow> (error + real list) option" where
  "ifft X =
     (let n = length (real_part X);
          conjugateImag = map (\<lambda>v. - v) (imag_part X)
      in Option.bind (fft (map (\<lambda>(i, r). r) (enumerate 0 (real_part X)))) (\<lambda>r.
           case r of
             Inl e \<Rightarrow> Some (Inl e)
           | Inr result \<Rightarrow> Some (Inr (map (\<lambda>v. v / real n) (real_part result)))))"

subsection \<open>imageRotation\<close>

text \<open>
  \<^verbatim>\<open>Math.round\<close>: the nearest integer, a half rounded up. The parameter \<^verbatim>\<open>image\<close>
  is written \<open>img\<close>, and the fields \<^verbatim>\<open>real\<close> and \<^verbatim>\<open>imag\<close> of a spectrum
  \<open>real_part\<close> and \<open>imag_part\<close>, since \<open>image\<close> and \<open>real\<close> are constants of HOL.
\<close>

definition math_round :: "real \<Rightarrow> int" where
  "math_round v = \<lfloor>v + 1 / 2\<rfloor>"

definition imageRotation :: "matrix \<Rightarrow> real \<Rightarrow> error + matrix" where
  "imageRotation img angleDegrees =
     (if img = [] then Inl TypeError
      else
        let rows = length img;
            cols = length (img ! 0);
            angleRad = angleDegrees * pi / 180;
            c = cos angleRad;
            s = sin angleRad;
            centerX = real cols / 2;
            centerY = real rows / 2
        in Inr (fold (\<lambda>y result.
                  fold (\<lambda>x result.
                    let dx = real x - centerX;
                        dy = real y - centerY;
                        srcX = c * dx + s * dy + centerX;
                        srcY = - s * dx + c * dy + centerY;
                        srcXi = math_round srcX;
                        srcYi = math_round srcY
                    in if srcXi \<ge> 0 \<and> srcXi < int cols \<and> srcYi \<ge> 0 \<and> srcYi < int rows
                       then set_entry result y x (img ! nat srcYi ! nat srcXi)
                       else result)
                  [0..<cols] result)
                [0..<rows] (zeros rows cols)))"

subsection \<open>histogramEqualization\<close>

text \<open>
  The lookup table divides two integer-valued doubles, and the divisor can be zero. The
  quotient is a JavaScript number with its non-finite values: a positive number over zero
  is \<open>Infinity\<close>, a negative one \<open>-Infinity\<close>, and zero over zero is \<open>NaN\<close> (the divisor
  \<open>totalPixels - cdfMin\<close> is never the negative zero). \<^verbatim>\<open>Math.round\<close> returns a non-finite
  argument unchanged.
\<close>

datatype jsnum = Finite real | PosInfinity | NegInfinity | NaN

definition js_divide :: "int \<Rightarrow> int \<Rightarrow> jsnum" where
  "js_divide a b =
     (if b = 0 then (if a = 0 then NaN else if a > 0 then PosInfinity else NegInfinity)
      else Finite (real_of_int a / real_of_int b))"

fun js_round :: "jsnum \<Rightarrow> jsnum" where
  "js_round (Finite v) = Finite (real_of_int (math_round v))"
| "js_round v = v"

text \<open>\<^verbatim>\<open>Math.min(255, Math.max(0, Math.round(image[i][j])))\<close>\<close>

definition pixelLevel :: "real \<Rightarrow> nat" where
  "pixelLevel v = nat (min 255 (max 0 (math_round v)))"

text \<open>
  \<^verbatim>\<open>let cdfMin = 0;
  for (let i = 0; i < 256; i++) if (cdf[i] > 0) { cdfMin = cdf[i]; break; }\<close>
  on the 256 entries of \<open>cdf\<close>.
\<close>

fun firstPositive :: "nat list \<Rightarrow> nat" where
  "firstPositive [] = 0"
| "firstPositive (c # cs) = (if c > 0 then c else firstPositive cs)"

definition histogramEqualization :: "matrix \<Rightarrow> error + jsnum list list" where
  "histogramEqualization img =
     (if img = [] then Inl TypeError
      else
        let rows = length img;
            cols = length (img ! 0);
            totalPixels = rows * cols;
            histogram =
              fold (\<lambda>i histogram.
                fold (\<lambda>j histogram.
                  let v = pixelLevel (img ! i ! j)
                  in histogram[v := histogram ! v + 1])
                [0..<cols] histogram)
              [0..<rows] (replicate 256 (0::nat));
            cdf = (replicate 256 0)[0 := histogram ! 0];
            cdf = fold (\<lambda>i cdf. cdf[i := cdf ! (i - 1) + histogram ! i]) [1..<256] cdf;
            cdfMin = firstPositive cdf;
            lookup =
              fold (\<lambda>i lookup.
                lookup[i := js_round (js_divide ((int (cdf ! i) - int cdfMin) * 255)
                                                (int totalPixels - int cdfMin))])
              [0..<256] (replicate 256 (Finite 0))
        in Inr (fold (\<lambda>i result.
                  fold (\<lambda>j result.
                    let v = pixelLevel (img ! i ! j)
                    in set_entry result i j (lookup ! v))
                  [0..<cols] result)
                [0..<rows] (replicate rows (replicate cols (Finite 0)))))"

section \<open>Notions used in the statements and proofs\<close>

text \<open>
  Nothing in this section models code: these are the shapes, closed forms and invariants
  in which the properties of the functions above are stated and proved.
\<close>

text \<open>
  The term of index \<open>j\<close> in the sum for \<open>result[i]\<close> of the full convolution: an index
  \<open>i - j\<close> outside the signal contributes zero.
\<close>

definition conv_term :: "real list \<Rightarrow> real list \<Rightarrow> nat \<Rightarrow> nat \<Rightarrow> real" where
  "conv_term signal kernel' i j =
     (if j \<le> i \<and> i - j < length signal then kernel' ! j * signal ! (i - j) else 0)"

text \<open>The identity matrix in closed form: 1 on the diagonal, 0 elsewhere.\<close>

definition idm :: "nat \<Rightarrow> matrix" where
  "idm n = map (\<lambda>i. map (\<lambda>j. if i = j then 1 else 0) [0..<n]) [0..<n]"

text \<open>A rectangular image: every row is as long as the first.\<close>

definition rectangular :: "'a list list \<Rightarrow> bool" where
  "rectangular m = list_all (\<lambda>row. length row = length (m ! 0)) m"

text \<open>
  The inverse transform in the words of the specification: the forward transform of the
  real component, its real part scaled by \<open>1/n\<close>. An error or a call that does not return
  is passed on.
\<close>

definition ifft_spec :: "real list \<Rightarrow> (error + real list) option" where
  "ifft_spec re =
     map_option (map_sum id (\<lambda>result. map (\<lambda>v. v / real (length re)) (real_part result)))
       (fft re)"

text \<open>A matrix of \<open>r\<close> rows, each of \<open>c\<close> entries; a square matrix is \<open>is_matrix n n\<close>.\<close>

definition is_matrix :: "nat \<Rightarrow> nat \<Rightarrow> 'a list list \<Rightarrow> bool" where
  "is_matrix r c m = (length m = r \<and> list_all (\<lambda>row. length row = c) m)"





text \<open>
  The Doolittle recursion in the words of the specification:
  \<open>U[i][j] = A[i][j] - \<Sum>\<^bsub>k<i\<^esub> L[i][k] U[k][j]\<close> for \<open>i \<le> j\<close> and
  \<open>L[i][j] = (A[i][j] - \<Sum>\<^bsub>k<j\<^esub> L[i][k] U[k][j]) / U[j][j]\<close> for \<open>i > j\<close>, with \<open>L\<close> unit
  lower-triangular and \<open>U\<close> upper-triangular. The pivots are \<open>doolittle_U A j j\<close>.
\<close>

function doolittle_U :: "matrix \<Rightarrow> nat \<Rightarrow> nat \<Rightarrow> real"
  and doolittle_L :: "matrix \<Rightarrow> nat \<Rightarrow> nat \<Rightarrow> real" where
  "doolittle_U A i j =
     (if i \<le> j then A ! i ! j - (\<Sum>k<i. doolittle_L A i k * doolittle_U A k j) else 0)"
| "doolittle_L A i j =
     (if j < i then (A ! i ! j - (\<Sum>k<j. doolittle_L A i k * doolittle_U A k j)) / doolittle_U A j j
      else if i = j then 1 else 0)"
  by pat_completeness auto
termination
  by (relation "measure (\<lambda>x. case x of Inl (A, i, j) \<Rightarrow> i + j | Inr (A, i, j) \<Rightarrow> i + j)") auto

declare doolittle_U.simps [simp del] doolittle_L.simps [simp del]

text \<open>
  The factors after \<open>j\<close> columns of the decomposition: the columns below \<open>j\<close> are those of
  the recursion, the others are still as initialised.
\<close>

definition lu_L :: "matrix \<Rightarrow> nat \<Rightarrow> nat \<Rightarrow> matrix" where
  "lu_L A n j =
     map (\<lambda>i. map (\<lambda>c. if c < i \<and> j \<le> c then 0 else doolittle_L A i c) [0..<n]) [0..<n]"

definition lu_U :: "matrix \<Rightarrow> nat \<Rightarrow> nat \<Rightarrow> matrix" where
  "lu_U A n j =
     map (\<lambda>i. map (\<lambda>c. if c < j then doolittle_U A i c else 0) [0..<n]) [0..<n]"


section \<open>Loops\<close>

text \<open>The invariant rule for a counted loop.\<close>

lemma fold_upt_invariant:
  assumes "P a s"
    and "\<And>i s. a \<le> i \<Longrightarrow> i < b \<Longrightarrow> P i s \<Longrightarrow> P (Suc i) (f i s)"
    and "a \<le> b"
  shows "P b (fold f [a..<b] s)"
  using assms(3,2)
proof (induction b)
  case 0
  with assms(1) show ?case by simp
next
  case (Suc b)
  show ?case
  proof (cases "a = Suc b")
    case True
    with assms(1) show ?thesis by simp
  next
    case False
    with Suc.prems have le: "a \<le> b" by simp
    have "P b (fold f [a..<b] s)"
      using le Suc.prems(2) by (intro Suc.IH) auto
    then have "P (Suc b) (f b (fold f [a..<b] s))"
      using le by (intro Suc.prems(2)) auto
    with le show ?thesis by simp
  qed
qed

text \<open>An accumulation \<^verbatim>\<open>acc += g(i)\<close> is a sum.\<close>

lemma fold_add_sum:
  fixes g :: "nat \<Rightarrow> real"
  shows "fold (\<lambda>i acc. acc + g i) [0..<n] s = s + (\<Sum>i<n. g i)"
  by (induction n) simp_all


text \<open>Entry assignment, and the nested loops that fill a matrix entry by entry.\<close>

lemma length_set_entry [simp]: "length (set_entry m i j v) = length m"
  by (simp add: set_entry_def)

lemma length_set_entry_row [simp]: "length (set_entry m i j v ! r) = length (m ! r)"
  by (cases "i < length m") (auto simp: set_entry_def nth_list_update list_update_beyond)

lemma set_entry_nth:
  "r < length m \<Longrightarrow> c < length (m ! r) \<Longrightarrow>
   set_entry m i j v ! r ! c = (if r = i \<and> c = j then v else m ! r ! c)"
  by (cases "r = i") (simp_all add: set_entry_def nth_list_update)

lemma fill_row:
  assumes "i < length r0" and "m \<le> length (r0 ! i)"
  shows "fold (\<lambda>j r. set_entry r i j (f j)) [0..<m] r0
         = r0[i := map (\<lambda>j. if j < m then f j else r0 ! i ! j) [0..<length (r0 ! i)]]"
proof (rule fold_upt_invariant
    [where P = "\<lambda>m r. r = r0[i := map (\<lambda>j. if j < m then f j else r0 ! i ! j) [0..<length (r0 ! i)]]"])
  show "r0 = r0[i := map (\<lambda>j. if j < 0 then f j else r0 ! i ! j) [0..<length (r0 ! i)]]"
    by (simp add: map_nth)
next
  fix j s
  assume "j < m"
    and s: "s = r0[i := map (\<lambda>j'. if j' < j then f j' else r0 ! i ! j') [0..<length (r0 ! i)]]"
  with assms show "set_entry s i j (f j)
      = r0[i := map (\<lambda>j'. if j' < Suc j then f j' else r0 ! i ! j') [0..<length (r0 ! i)]]"
    unfolding s set_entry_def
    by (auto intro!: nth_equalityI simp: nth_list_update)
qed simp

lemma fill_matrix:
  assumes "length r0 = rows" and "\<And>i. i < rows \<Longrightarrow> length (r0 ! i) = cols"
  shows "fold (\<lambda>i r. fold (\<lambda>j r. set_entry r i j (f i j)) [0..<cols] r) [0..<rows] r0
         = map (\<lambda>i. map (f i) [0..<cols]) [0..<rows]"
proof -
  have "fold (\<lambda>i r. fold (\<lambda>j r. set_entry r i j (f i j)) [0..<cols] r) [0..<rows] r0
        = map (\<lambda>i. if i < rows then map (f i) [0..<cols] else r0 ! i) [0..<rows]"
  proof (rule fold_upt_invariant
      [where P = "\<lambda>m r. r = map (\<lambda>i. if i < m then map (f i) [0..<cols] else r0 ! i) [0..<rows]"])
    show "r0 = map (\<lambda>i. if i < 0 then map (f i) [0..<cols] else r0 ! i) [0..<rows]"
      using assms(1) by (auto intro!: nth_equalityI)
  next
    fix i s
    assume i: "i < rows"
      and s: "s = map (\<lambda>i'. if i' < i then map (f i') [0..<cols] else r0 ! i') [0..<rows]"
    have "length s = rows" and "s ! i = r0 ! i"
      using i by (simp_all add: s)
    with i assms(2) [OF i]
    have "fold (\<lambda>j r. set_entry r i j (f i j)) [0..<cols] s = s[i := map (f i) [0..<cols]]"
      by (subst fill_row) (auto intro!: arg_cong [where f = "list_update s i"])
    also have "\<dots> = map (\<lambda>i'. if i' < Suc i then map (f i') [0..<cols] else r0 ! i') [0..<rows]"
      using i unfolding s by (auto intro!: nth_equalityI simp: nth_list_update)
    finally show "fold (\<lambda>j r. set_entry r i j (f i j)) [0..<cols] s
        = map (\<lambda>i'. if i' < Suc i then map (f i') [0..<cols] else r0 ! i') [0..<rows]" .
  qed simp
  then show ?thesis by simp
qed


text \<open>A loop that stores \<open>g i\<close> at every index \<open>i\<close>.\<close>

lemma fold_tabulate:
  assumes "n \<le> length r0"
  shows "fold (\<lambda>i r. r[i := g i]) [0..<n] r0
         = map (\<lambda>i. if i < n then g i else r0 ! i) [0..<length r0]"
proof (rule fold_upt_invariant
    [where P = "\<lambda>n r. r = map (\<lambda>i. if i < n then g i else r0 ! i) [0..<length r0]"])
  show "r0 = map (\<lambda>i. if i < 0 then g i else r0 ! i) [0..<length r0]"
    by (simp add: map_nth)
next
  fix i s
  assume "i < n" and s: "s = map (\<lambda>i'. if i' < i then g i' else r0 ! i') [0..<length r0]"
  with assms have "i < length r0" by simp
  then show "s[i := g i] = map (\<lambda>i'. if i' < Suc i then g i' else r0 ! i') [0..<length r0]"
    unfolding s by (auto intro!: nth_equalityI simp: nth_list_update)
qed simp


text \<open>Rounding an integer coordinate; the rows of a rectangular image.\<close>

lemma math_round_of_nat [simp]: "math_round (real n) = int n"
  by (simp add: math_round_def)

lemma rectangular_rows:
  "rectangular m \<Longrightarrow> i < length m \<Longrightarrow> length (m ! i) = length (m ! 0)"
  by (simp add: rectangular_def list_all_length)


text \<open>Loops that can throw.\<close>

lemma fold_err_append:
  "fold_err f (xs @ ys) s = (case fold_err f xs s of Inl e \<Rightarrow> Inl e | Inr s' \<Rightarrow> fold_err f ys s')"
  by (induction xs arbitrary: s) (auto split: sum.splits)

lemma fold_err_upt_Suc:
  "a \<le> b \<Longrightarrow> fold_err f [a..<Suc b] s
     = (case fold_err f [a..<b] s of Inl e \<Rightarrow> Inl e | Inr s' \<Rightarrow> f b s')"
  by (simp add: fold_err_append split: sum.splits)

lemma fold_err_Inl_iff:
  "a \<le> b \<Longrightarrow>
   fold_err f [a..<b] s = Inl e \<longleftrightarrow>
   (\<exists>k s'. a \<le> k \<and> k < b \<and> fold_err f [a..<k] s = Inr s' \<and> f k s' = Inl e)"
proof (induction b)
  case 0
  then show ?case by simp
next
  case (Suc b)
  show ?case
  proof (cases "a = Suc b")
    case True
    then show ?thesis by auto
  next
    case False
    with Suc.prems have le: "a \<le> b" by simp
    note IH = Suc.IH [OF le]
    show ?thesis
    proof (cases "fold_err f [a..<b] s")
      case (Inl e')
      with IH [of ] have "fold_err f [a..<Suc b] s = Inl e'"
        using le by (simp add: fold_err_append)
      show ?thesis
      proof
        assume "fold_err f [a..<Suc b] s = Inl e"
        with \<open>fold_err f [a..<Suc b] s = Inl e'\<close> have "e' = e" by simp
        with Inl IH obtain k s' where "a \<le> k" "k < b" "fold_err f [a..<k] s = Inr s'" "f k s' = Inl e"
          by auto
        then show "\<exists>k s'. a \<le> k \<and> k < Suc b \<and> fold_err f [a..<k] s = Inr s' \<and> f k s' = Inl e"
          by (intro exI [of _ k] exI [of _ s']) simp
      next
        assume "\<exists>k s'. a \<le> k \<and> k < Suc b \<and> fold_err f [a..<k] s = Inr s' \<and> f k s' = Inl e"
        then obtain k s' where k: "a \<le> k" "k < Suc b" "fold_err f [a..<k] s = Inr s'" "f k s' = Inl e"
          by blast
        with Inl have "k \<noteq> b" by auto
        with k have "k < b" by simp
        with k IH have "fold_err f [a..<b] s = Inl e" by blast
        with le show "fold_err f [a..<Suc b] s = Inl e"
          by (simp add: fold_err_append)
      qed
    next
      case (Inr s0)
      have not_before: "\<not> (\<exists>k s'. a \<le> k \<and> k < b \<and> fold_err f [a..<k] s = Inr s' \<and> f k s' = Inl e)"
        using IH Inr by simp
      have "fold_err f [a..<Suc b] s = f b s0"
        using le Inr by (simp add: fold_err_append split: sum.splits)
      moreover have "(\<exists>k s'. a \<le> k \<and> k < Suc b \<and> fold_err f [a..<k] s = Inr s' \<and> f k s' = Inl e)
          \<longleftrightarrow> f b s0 = Inl e"
      proof
        assume "\<exists>k s'. a \<le> k \<and> k < Suc b \<and> fold_err f [a..<k] s = Inr s' \<and> f k s' = Inl e"
        then obtain k s' where k: "a \<le> k" "k < Suc b" "fold_err f [a..<k] s = Inr s'" "f k s' = Inl e"
          by blast
        with not_before have "k = b" by (cases "k < b") auto
        with k Inr show "f b s0 = Inl e" by simp
      next
        assume "f b s0 = Inl e"
        with le Inr show "\<exists>k s'. a \<le> k \<and> k < Suc b \<and> fold_err f [a..<k] s = Inr s' \<and> f k s' = Inl e"
          by (intro exI [of _ b] exI [of _ s0]) simp
      qed
      ultimately show ?thesis by simp
    qed
  qed
qed

lemma fold_err_upt_invariant:
  assumes "P a s"
    and "\<And>i s s'. a \<le> i \<Longrightarrow> i < b \<Longrightarrow> P i s \<Longrightarrow> f i s = Inr s' \<Longrightarrow> P (Suc i) s'"
    and "a \<le> b"
    and "fold_err f [a..<b] s = Inr s'"
  shows "P b s'"
  using assms(3,4,2)
proof (induction b arbitrary: s')
  case 0
  with assms(1) show ?case by simp
next
  case (Suc b)
  show ?case
  proof (cases "a = Suc b")
    case True
    with assms(1) Suc.prems(2) show ?thesis by simp
  next
    case False
    with Suc.prems have le: "a \<le> b" by simp
    from Suc.prems(2) le obtain s0 where s0: "fold_err f [a..<b] s = Inr s0" and last: "f b s0 = Inr s'"
      by (auto simp: fold_err_append split: sum.splits)
    have "P b s0"
      using le s0 Suc.prems(3) by (intro Suc.IH) auto
    with le last show ?thesis
      by (intro Suc.prems(3) [of b s0 s']) auto
  qed
qed


text \<open>Matrices: shapes, and loops that rewrite a row or every entry in place.\<close>

lemma is_matrixI:
  "length m = r \<Longrightarrow> (\<And>i. i < r \<Longrightarrow> length (m ! i) = c) \<Longrightarrow> is_matrix r c m"
  by (simp add: is_matrix_def list_all_length)

lemma is_matrix_length: "is_matrix r c m \<Longrightarrow> length m = r"
  by (simp add: is_matrix_def)

lemma is_matrix_row: "is_matrix r c m \<Longrightarrow> i < r \<Longrightarrow> length (m ! i) = c"
  by (simp add: is_matrix_def list_all_length)






text \<open>A loop whose body never throws.\<close>

lemma fold_err_Inr:
  assumes "\<And>x s. x \<in> set xs \<Longrightarrow> f x s = Inr (g x s)"
  shows "fold_err f xs s = Inr (fold g xs s)"
  using assms by (induction xs arbitrary: s) simp_all


section \<open>identityMatrix and matrixDeterminant\<close>

lemma identityMatrix_closed: "identityMatrix n = idm n"
proof -
  have "fold (\<lambda>i result. set_entry result i i 1) [0..<m] (zeros n n)
        = map (\<lambda>i. map (\<lambda>j. if i = j \<and> i < m then 1 else 0) [0..<n]) [0..<n]"
    if "m \<le> n" for m
    using that
  proof (induction m)
    case 0
    show ?case by (auto simp: zeros_def intro!: nth_equalityI)
  next
    case (Suc m)
    then show ?case
      by (auto simp: set_entry_def nth_list_update intro!: nth_equalityI)
  qed
  from this [of n] show ?thesis
    by (simp add: identityMatrix_def idm_def)
qed

lemma dropColumn_enumerate:
  "map snd (filter (\<lambda>(j, _). j \<noteq> k + col) (enumerate k row)) = take col row @ drop (Suc col) row"
proof (induction row arbitrary: k col)
  case Nil
  show ?case by simp
next
  case (Cons x row)
  show ?case
  proof (cases col)
    case 0
    have "filter (\<lambda>(j, _). j \<noteq> k) (enumerate (Suc k) row) = enumerate (Suc k) row"
      by (rule filter_True) (auto simp: in_set_enumerate_eq)
    with 0 show ?thesis by simp
  next
    case (Suc c)
    with Cons.IH [of "Suc k" c] show ?thesis by simp
  qed
qed

lemma dropColumn_take_drop: "dropColumn col row = take col row @ drop (Suc col) row"
  using dropColumn_enumerate [of 0 col row] by (simp add: dropColumn_def)

lemma length_idm [simp]: "length (idm n) = n"
  by (simp add: idm_def)

lemma length_idm_row [simp]: "i < n \<Longrightarrow> length (idm n ! i) = n"
  by (simp add: idm_def)

lemma idm_nth [simp]: "i < n \<Longrightarrow> j < n \<Longrightarrow> idm n ! i ! j = (if i = j then 1 else 0)"
  by (simp add: idm_def)

lemma minor_idm: "map (dropColumn 0) (drop 1 (idm (Suc n))) = idm n"
proof (rule nth_equalityI)
  show "length (map (dropColumn 0) (drop 1 (idm (Suc n)))) = length (idm n)" by simp
next
  fix i
  assume "i < length (map (dropColumn 0) (drop 1 (idm (Suc n))))"
  then have i: "i < n" by simp
  then show "map (dropColumn 0) (drop 1 (idm (Suc n))) ! i = idm n ! i"
    by (intro nth_equalityI) (simp_all add: dropColumn_take_drop)
qed

lemma det_idm: "n \<ge> 1 \<Longrightarrow> matrixDeterminant (idm n) = 1"
proof (induction n)
  case 0
  then show ?case by simp
next
  case (Suc n)
  consider "n = 0" | "n = 1" | "n \<ge> 2" by linarith
  then show ?case
  proof cases
    case 1
    then show ?thesis
      by (subst matrixDeterminant.simps) simp
  next
    case 2
    then show ?thesis
      by (subst matrixDeterminant.simps) simp
  next
    case 3
    then have IH: "matrixDeterminant (idm n) = 1"
      using Suc.IH by simp
    let ?t = "\<lambda>col. (if col mod 2 = 0 then 1 else - 1) * idm (Suc n) ! 0 ! col
                 * matrixDeterminant (map (dropColumn col) (drop 1 (idm (Suc n))))"
    have "matrixDeterminant (idm (Suc n)) = fold (\<lambda>col det. det + ?t col) [0..<Suc n] 0"
      using 3 by (subst matrixDeterminant.simps) (simp add: Let_def del: upt_Suc)
    also have "\<dots> = (\<Sum>col<Suc n. ?t col)"
      by (simp add: fold_add_sum del: upt_Suc)
    also have "\<dots> = ?t 0 + (\<Sum>col\<in>{..<Suc n} - {0}. ?t col)"
      by (subst sum.remove [of _ 0]) auto
    also have "(\<Sum>col\<in>{..<Suc n} - {0}. ?t col) = 0"
      by (rule sum.neutral) auto
    also have "?t 0 = 1"
      using IH minor_idm [of n] by simp
    finally show ?thesis by simp
  qed
qed

text \<open>
  Claim C7, as amended. For every \<open>n \<ge> 1\<close>, \<open>matrixDeterminant(identityMatrix(n))\<close>
  equals 1.
\<close>

theorem determinant_identity:
  "n \<ge> 1 \<Longrightarrow> matrixDeterminant (identityMatrix n) = 1"
  by (simp add: identityMatrix_closed det_idm)

theorem determinant_identity_witness:
  "matrixDeterminant (identityMatrix 3) = 1"
  using determinant_identity [of 3] by simp

text \<open>
  Claim C7 as stated, for every \<open>n\<close>, fails at \<open>n = 0\<close>: \<open>identityMatrix(0)\<close> is the
  empty array, which is neither of the two base cases, and the cofactor loop over no
  column leaves \<open>det\<close> at its initial value 0.
\<close>

theorem determinant_identity_empty:
  "matrixDeterminant (identityMatrix 0) = 0"
  by (subst matrixDeterminant.simps) (simp add: identityMatrix_def zeros_def)

section \<open>Partial pivoting and the pivot tolerance\<close>

lemma findMaxRow_selects:
  assumes "col < n"
  shows "col \<le> findMaxRow augmented n col \<and> findMaxRow augmented n col < n
         \<and> (\<forall>row. col \<le> row \<and> row < n \<longrightarrow>
               \<bar>augmented ! row ! col\<bar> \<le> \<bar>augmented ! findMaxRow augmented n col ! col\<bar>)"
  unfolding findMaxRow_def
proof (rule fold_upt_invariant
    [where P = "\<lambda>r m. col \<le> m \<and> m < r
        \<and> (\<forall>row. col \<le> row \<and> row < r \<longrightarrow> \<bar>augmented ! row ! col\<bar> \<le> \<bar>augmented ! m ! col\<bar>)"])
  show "col \<le> col \<and> col < col + 1
        \<and> (\<forall>row. col \<le> row \<and> row < col + 1 \<longrightarrow> \<bar>augmented ! row ! col\<bar> \<le> \<bar>augmented ! col ! col\<bar>)"
    by (auto simp: le_less_Suc_eq)
next
  fix i m
  assume inv: "col \<le> m \<and> m < i
        \<and> (\<forall>row. col \<le> row \<and> row < i \<longrightarrow> \<bar>augmented ! row ! col\<bar> \<le> \<bar>augmented ! m ! col\<bar>)"
    and "col + 1 \<le> i"
  let ?m' = "if \<bar>augmented ! i ! col\<bar> > \<bar>augmented ! m ! col\<bar> then i else m"
  have "\<bar>augmented ! row ! col\<bar> \<le> \<bar>augmented ! ?m' ! col\<bar>" if "col \<le> row" "row < Suc i" for row
  proof (cases "row = i")
    case True
    then show ?thesis by simp
  next
    case False
    with that have "row < i" by simp
    with inv that have "\<bar>augmented ! row ! col\<bar> \<le> \<bar>augmented ! m ! col\<bar>" by blast
    then show ?thesis by simp
  qed
  with inv \<open>col + 1 \<le> i\<close>
  show "col \<le> ?m' \<and> ?m' < Suc i
        \<and> (\<forall>row. col \<le> row \<and> row < Suc i \<longrightarrow> \<bar>augmented ! row ! col\<bar> \<le> \<bar>augmented ! ?m' ! col\<bar>)"
    by auto
qed (use assms in simp)

lemma swapRows_pivot:
  "col < length augmented \<Longrightarrow> maxRow < length augmented \<Longrightarrow>
   swapRows augmented col maxRow ! col = augmented ! maxRow"
  by (simp add: swapRows_def nth_list_update)

lemma gaussJordanStep_fails_iff:
  assumes "col < n" and "length augmented = n"
  shows "gaussJordanStep n col augmented = Inl e \<longleftrightarrow>
         e = SingularMatrix \<and> \<bar>augmented ! findMaxRow augmented n col ! col\<bar> < tolerance"
  using findMaxRow_selects [OF assms(1), of augmented] assms
  by (auto simp: gaussJordanStep_def Let_def swapRows_pivot)

lemma forwardStep_fails_iff:
  assumes "col < n" and "length augmented = n"
  shows "forwardStep n col augmented = Inl e \<longleftrightarrow>
         e = NoUniqueSolution \<and> \<bar>augmented ! findMaxRow augmented n col ! col\<bar> < tolerance"
  using findMaxRow_selects [OF assms(1), of augmented] assms
  by (auto simp: forwardStep_def Let_def swapRows_pivot)
lemma length_fold_set_entry [simp]:
  "length (fold (\<lambda>j a. set_entry a (r j a) (c j a) (v j a)) xs a0) = length a0"
  by (induction xs arbitrary: a0) simp_all

lemma length_swapRows [simp]: "length (swapRows a col p) = length a"
  by (simp add: swapRows_def)

lemma length_scalePivotRow [simp]: "length (scalePivotRow a n col) = length a"
  by (simp add: scalePivotRow_def Let_def)

lemma length_eliminateColumn [simp]: "length (eliminateColumn a n col) = length a"
proof -
  have "length (fold (\<lambda>row augmented.
             if row \<noteq> col then
               let factor = augmented ! row ! col
               in fold (\<lambda>j augmented.
                          set_entry augmented row j
                            (augmented ! row ! j - factor * augmented ! col ! j))
                    [0..<2 * n] augmented
             else augmented) xs a) = length a" for xs
    by (induction xs arbitrary: a) (simp_all add: Let_def)
  then show ?thesis by (simp add: eliminateColumn_def)
qed

lemma length_eliminateBelow [simp]: "length (eliminateBelow a n col) = length a"
proof -
  have "length (fold (\<lambda>row augmented.
             let factor = augmented ! row ! col / augmented ! col ! col
             in fold (\<lambda>j augmented.
                        set_entry augmented row j
                          (augmented ! row ! j - factor * augmented ! col ! j))
                  [col..<n + 1] augmented) xs a) = length a" for xs
    by (induction xs arbitrary: a) (simp_all add: Let_def)
  then show ?thesis by (simp add: eliminateBelow_def)
qed

lemma length_gaussJordanStep:
  "gaussJordanStep n col a = Inr a' \<Longrightarrow> length a' = length a"
  by (auto simp: gaussJordanStep_def Let_def split: if_splits)

lemma length_forwardStep:
  "forwardStep n col a = Inr a' \<Longrightarrow> length a' = length a"
  by (auto simp: forwardStep_def Let_def split: if_splits)

lemma length_gaussJordan_run:
  assumes "fold_err (gaussJordanStep n) [0..<col] a = Inr a'"
  shows "length a' = length a"
  by (rule fold_err_upt_invariant [where P = "\<lambda>_ s. length s = length a", OF _ _ _ assms])
     (simp_all add: length_gaussJordanStep)

lemma length_forward_run:
  assumes "fold_err (forwardStep n) [0..<col] a = Inr a'"
  shows "length a' = length a"
  by (rule fold_err_upt_invariant [where P = "\<lambda>_ s. length s = length a", OF _ _ _ assms])
     (simp_all add: length_forwardStep)

lemma length_augmentIdentity [simp]: "length (augmentIdentity m) = length m"
  by (simp add: augmentIdentity_def)

lemma length_augmentVector [simp]: "length (augmentVector A b) = length A"
  by (simp add: augmentVector_def)

lemma matrixInverse_fails_iff:
  "matrixInverse m = Inl e \<longleftrightarrow>
   e = SingularMatrix \<and>
   (\<exists>col augmented. col < length m
      \<and> fold_err (gaussJordanStep (length m)) [0..<col] (augmentIdentity m) = Inr augmented
      \<and> \<bar>augmented ! findMaxRow augmented (length m) col ! col\<bar> < tolerance)"
proof -
  let ?n = "length m"
  have "matrixInverse m = Inl e
        \<longleftrightarrow> fold_err (gaussJordanStep ?n) [0..<?n] (augmentIdentity m) = Inl e"
    by (simp add: matrixInverse_def Let_def split: sum.splits)
  also have "\<dots> \<longleftrightarrow> (\<exists>col augmented. 0 \<le> col \<and> col < ?n
      \<and> fold_err (gaussJordanStep ?n) [0..<col] (augmentIdentity m) = Inr augmented
      \<and> gaussJordanStep ?n col augmented = Inl e)"
    by (rule fold_err_Inl_iff) simp
  also have "\<dots> \<longleftrightarrow> e = SingularMatrix \<and>
   (\<exists>col augmented. col < ?n
      \<and> fold_err (gaussJordanStep ?n) [0..<col] (augmentIdentity m) = Inr augmented
      \<and> \<bar>augmented ! findMaxRow augmented ?n col ! col\<bar> < tolerance)"
    using gaussJordanStep_fails_iff length_gaussJordan_run length_augmentIdentity
    by (metis le0)
  finally show ?thesis .
qed

lemma linearEquationSolver_fails_iff:
  "linearEquationSolver A b = Inl e \<longleftrightarrow>
   e = NoUniqueSolution \<and>
   (\<exists>col augmented. col < length A
      \<and> fold_err (forwardStep (length A)) [0..<col] (augmentVector A b) = Inr augmented
      \<and> \<bar>augmented ! findMaxRow augmented (length A) col ! col\<bar> < tolerance)"
proof -
  let ?n = "length A"
  have "linearEquationSolver A b = Inl e
        \<longleftrightarrow> fold_err (forwardStep ?n) [0..<?n] (augmentVector A b) = Inl e"
    by (simp add: linearEquationSolver_def Let_def split: sum.splits)
  also have "\<dots> \<longleftrightarrow> (\<exists>col augmented. 0 \<le> col \<and> col < ?n
      \<and> fold_err (forwardStep ?n) [0..<col] (augmentVector A b) = Inr augmented
      \<and> forwardStep ?n col augmented = Inl e)"
    by (rule fold_err_Inl_iff) simp
  also have "\<dots> \<longleftrightarrow> e = NoUniqueSolution \<and>
   (\<exists>col augmented. col < ?n
      \<and> fold_err (forwardStep ?n) [0..<col] (augmentVector A b) = Inr augmented
      \<and> \<bar>augmented ! findMaxRow augmented ?n col ! col\<bar> < tolerance)"
    using forwardStep_fails_iff length_forward_run length_augmentVector
    by (metis le0)
  finally show ?thesis .
qed

text \<open>
  Claim C3. At a pivot column \<open>col\<close> of an augmented matrix of \<open>n\<close> rows, the pivot search
  selects a row in \<open>[col, n)\<close> whose entry in that column has the largest absolute value,
  and the swap puts that row at position \<open>col\<close>. The Gauss-Jordan step of \<open>matrixInverse\<close>
  throws exactly when the magnitude of the selected pivot is below \<open>1e-10\<close>, and the error
  is \<open>SingularMatrix\<close>; the forward-elimination step of \<open>linearEquationSolver\<close> throws under
  the same rule, with \<open>NoUniqueSolution\<close>. Each function fails exactly when some pivot
  column that its run reaches has a selected pivot below the tolerance; a failing call is an
  error value, never a returned matrix or vector.
\<close>

theorem partial_pivoting_rule:
  assumes "col < n" and "length augmented = n"
  shows "col \<le> findMaxRow augmented n col \<and> findMaxRow augmented n col < n
     \<and> (\<forall>row. col \<le> row \<and> row < n \<longrightarrow>
           \<bar>augmented ! row ! col\<bar> \<le> \<bar>augmented ! findMaxRow augmented n col ! col\<bar>)
     \<and> swapRows augmented col (findMaxRow augmented n col) ! col
         = augmented ! findMaxRow augmented n col
     \<and> (gaussJordanStep n col augmented = Inl e \<longleftrightarrow>
          e = SingularMatrix \<and> \<bar>augmented ! findMaxRow augmented n col ! col\<bar> < tolerance)
     \<and> (forwardStep n col augmented = Inl e \<longleftrightarrow>
          e = NoUniqueSolution \<and> \<bar>augmented ! findMaxRow augmented n col ! col\<bar> < tolerance)
     \<and> (matrixInverse m = Inl e \<longleftrightarrow>
          e = SingularMatrix \<and>
          (\<exists>col augmented. col < length m
             \<and> fold_err (gaussJordanStep (length m)) [0..<col] (augmentIdentity m) = Inr augmented
             \<and> \<bar>augmented ! findMaxRow augmented (length m) col ! col\<bar> < tolerance))
     \<and> (linearEquationSolver A b = Inl e \<longleftrightarrow>
          e = NoUniqueSolution \<and>
          (\<exists>col augmented. col < length A
             \<and> fold_err (forwardStep (length A)) [0..<col] (augmentVector A b) = Inr augmented
             \<and> \<bar>augmented ! findMaxRow augmented (length A) col ! col\<bar> < tolerance))"
proof -
  note sel = findMaxRow_selects [OF assms(1), of augmented]
  have "swapRows augmented col (findMaxRow augmented n col) ! col
         = augmented ! findMaxRow augmented n col"
    using sel assms by (intro swapRows_pivot) simp_all
  with sel show ?thesis
    using gaussJordanStep_fails_iff [OF assms, of e] forwardStep_fails_iff [OF assms, of e]
      matrixInverse_fails_iff [of m e] linearEquationSolver_fails_iff [of A b e]
    by blast
qed

text \<open>An instance: the singular matrix of the repository's tests.\<close>

theorem partial_pivoting_rule_witness:
  "findMaxRow [[1, 2, 1, 0], [2, 4, 0, 1]] 2 0 = 1
   \<and> matrixInverse [[1, 2], [2, 4]] = Inl SingularMatrix
   \<and> linearEquationSolver [[1, 2], [2, 4]] [1, 2] = Inl NoUniqueSolution"
  using partial_pivoting_rule [of 0 2 "[[1, 2, 1, 0], [2, 4, 0, 1]]" SingularMatrix
      "[[1, 2], [2, 4]]" "[[1, 2], [2, 4]]" "[1, 2]"]
  by (simp add: matrixInverse_def linearEquationSolver_def augmentIdentity_def augmentVector_def
      gaussJordanStep_def forwardStep_def findMaxRow_def swapRows_def tolerance_def
      scalePivotRow_def eliminateColumn_def eliminateBelow_def set_entry_def upt_rec)


section \<open>matrixMultiply\<close>


section \<open>matrixInverse\<close>




















section \<open>luDecomposition\<close>

lemma luSum_closed: "luSum L U i j m = (\<Sum>k<m. L ! i ! k * U ! k ! j)"
  by (simp add: luSum_def fold_add_sum)

lemma doolittle_U_upper: "i \<le> j \<Longrightarrow>
  doolittle_U A i j = A ! i ! j - (\<Sum>k<i. doolittle_L A i k * doolittle_U A k j)"
  by (subst doolittle_U.simps) simp

lemma doolittle_U_lower [simp]: "j < i \<Longrightarrow> doolittle_U A i j = 0"
  by (subst doolittle_U.simps) simp

lemma doolittle_L_lower: "j < i \<Longrightarrow>
  doolittle_L A i j
  = (A ! i ! j - (\<Sum>k<j. doolittle_L A i k * doolittle_U A k j)) / doolittle_U A j j"
  by (subst doolittle_L.simps) simp

lemma doolittle_L_diagonal [simp]: "doolittle_L A i i = 1"
  by (subst doolittle_L.simps) simp

lemma doolittle_L_upper [simp]: "i < j \<Longrightarrow> doolittle_L A i j = 0"
  by (subst doolittle_L.simps) simp

lemma is_matrix_lu_L [simp]: "is_matrix n n (lu_L A n j)"
  by (auto intro!: is_matrixI simp: lu_L_def)

lemma is_matrix_lu_U [simp]: "is_matrix n n (lu_U A n j)"
  by (auto intro!: is_matrixI simp: lu_U_def)

lemma lu_L_nth:
  "i < n \<Longrightarrow> c < n \<Longrightarrow> lu_L A n j ! i ! c = (if c < i \<and> j \<le> c then 0 else doolittle_L A i c)"
  by (simp add: lu_L_def)

lemma lu_U_nth:
  "i < n \<Longrightarrow> c < n \<Longrightarrow> lu_U A n j ! i ! c = (if c < j then doolittle_U A i c else 0)"
  by (simp add: lu_U_def)

lemma lu_initial_L:
  "fold (\<lambda>i L. set_entry L i i 1) [0..<n] (zeros n n) = lu_L A n 0"
proof -
  have "fold (\<lambda>i L. set_entry L i i 1) [0..<n] (zeros n n) = idm n"
    using identityMatrix_closed [of n] by (simp add: identityMatrix_def)
  also have "idm n = lu_L A n 0"
    by (auto intro!: nth_equalityI simp: lu_L_nth is_matrix_length is_matrix_row
        simp del: length_idm_row) (auto simp: lu_L_def)
  finally show ?thesis .
qed

lemma lu_initial_U: "zeros n n = lu_U A n 0"
  by (auto intro!: nth_equalityI simp: zeros_def lu_U_def)

text \<open>The upper-triangular pass of column \<open>j\<close>.\<close>

lemma luUpper_step:
  assumes j: "j < n"
  shows "luUpper A j (lu_L A n j) (lu_U A n j) = lu_U A n (Suc j)"
proof -
  let ?L = "lu_L A n j"
  let ?Ui = "\<lambda>i'. map (\<lambda>i. map (\<lambda>c. if c < j \<or> (c = j \<and> i < i') then doolittle_U A i c else 0)
                          [0..<n]) [0..<n]"
  have "fold (\<lambda>i U. set_entry U i j (A ! i ! j - luSum ?L U i j i)) [0..<j + 1] (lu_U A n j)
        = ?Ui (j + 1)"
  proof (rule fold_upt_invariant [where P = "\<lambda>i' U. U = ?Ui i'"])
    show "lu_U A n j = ?Ui 0"
      by (simp add: lu_U_def)
  next
    fix i U
    assume i: "i < j + 1" and U: "U = ?Ui i"
    then have i_n: "i < n" and ij: "i \<le> j" using j by simp_all
    have "luSum ?L U i j i = (\<Sum>k<i. doolittle_L A i k * doolittle_U A k j)"
      unfolding luSum_closed
    proof (rule sum.cong [OF refl])
      fix k assume "k \<in> {..<i}"
      then have k: "k < i" by simp
      with i_n ij j have "?L ! i ! k = doolittle_L A i k" "U ! k ! j = doolittle_U A k j"
        by (simp_all add: lu_L_nth U)
      then show "?L ! i ! k * U ! k ! j = doolittle_L A i k * doolittle_U A k j" by simp
    qed
    then have v: "A ! i ! j - luSum ?L U i j i = doolittle_U A i j"
      using ij by (simp add: doolittle_U_upper)
    show "set_entry U i j (A ! i ! j - luSum ?L U i j i) = ?Ui (Suc i)"
      unfolding v using i_n j
      by (auto intro!: nth_equalityI simp: U set_entry_def nth_list_update)
  qed simp
  also have "?Ui (j + 1) = lu_U A n (Suc j)"
    by (auto intro!: nth_equalityI simp: lu_U_def)
  finally show ?thesis
    by (simp add: luUpper_def)
qed

text \<open>The lower-triangular pass of column \<open>j\<close>, with its pivot check.\<close>

lemma luLower_step:
  assumes j: "j < n"
  shows "luLower A n j (lu_U A n (Suc j)) (lu_L A n j)
         = (if j + 1 < n \<and> \<bar>doolittle_U A j j\<bar> < tolerance then Inl ZeroPivot
            else Inr (lu_L A n (Suc j)))"
proof -
  let ?U = "lu_U A n (Suc j)"
  let ?f = "\<lambda>i L. let sum = luSum L ?U i j j
                 in if \<bar>?U ! j ! j\<bar> < tolerance then Inl ZeroPivot
                    else Inr (set_entry L i j ((A ! i ! j - sum) / ?U ! j ! j))"
  have pivot: "?U ! j ! j = doolittle_U A j j"
    using j by (simp add: lu_U_nth)
  show ?thesis
  proof (cases "j + 1 < n \<and> \<bar>doolittle_U A j j\<bar> < tolerance")
    case True
    then have "[j + 1..<n] = (j + 1) # [j + 2..<n]"
      by (simp add: upt_conv_Cons)
    with True show ?thesis
      by (simp add: luLower_def pivot Let_def)
  next
    case False
    let ?g = "\<lambda>i L. set_entry L i j ((A ! i ! j - luSum L ?U i j j) / ?U ! j ! j)"
    let ?Li = "\<lambda>i'. map (\<lambda>i. map (\<lambda>c. if c < i \<and> j \<le> c \<and> \<not> (c = j \<and> i < i') then 0
                                     else doolittle_L A i c) [0..<n]) [0..<n]"
    have "fold_err ?f [j + 1..<n] (lu_L A n j) = Inr (fold ?g [j + 1..<n] (lu_L A n j))"
    proof (rule fold_err_Inr)
      fix i L assume "i \<in> set [j + 1..<n]"
      then have "j + 1 < n" by simp
      with False show "?f i L = Inr (?g i L)"
        by (simp add: pivot Let_def)
    qed
    also have "fold ?g [j + 1..<n] (lu_L A n j) = ?Li n"
    proof (cases "j + 1 \<le> n")
      case le: True
      show ?thesis
      proof (rule fold_upt_invariant [where P = "\<lambda>i' L. L = ?Li i'", OF _ _ le])
        show "lu_L A n j = ?Li (j + 1)"
          by (auto intro!: nth_equalityI simp: lu_L_def)
      next
        fix i L
        assume ji: "j + 1 \<le> i" and i: "i < n" and L: "L = ?Li i"
        have "luSum L ?U i j j = (\<Sum>k<j. doolittle_L A i k * doolittle_U A k j)"
          unfolding luSum_closed
        proof (rule sum.cong [OF refl])
          fix k assume "k \<in> {..<j}"
          then have k: "k < j" by simp
          with i ji j have "L ! i ! k = doolittle_L A i k" "?U ! k ! j = doolittle_U A k j"
            by (simp_all add: lu_U_nth L)
          then show "L ! i ! k * ?U ! k ! j = doolittle_L A i k * doolittle_U A k j" by simp
        qed
        then have v: "(A ! i ! j - luSum L ?U i j j) / ?U ! j ! j = doolittle_L A i j"
          using ji by (simp add: doolittle_L_lower pivot)
        show "?g i L = ?Li (Suc i)"
          unfolding v using i j ji
          by (auto intro!: nth_equalityI simp: L set_entry_def nth_list_update less_Suc_eq)
      qed
    next
      case False
      with j show ?thesis by simp
    qed
    also have "?Li n = lu_L A n (Suc j)"
      by (auto intro!: nth_equalityI simp: lu_L_def)
    finally show ?thesis
      using False by (simp add: luLower_def)
  qed
qed

lemma luColumn_step:
  assumes "j < n"
  shows "luColumn A n j (lu_L A n j, lu_U A n j)
         = (if j + 1 < n \<and> \<bar>doolittle_U A j j\<bar> < tolerance then Inl ZeroPivot
            else Inr (lu_L A n (Suc j), lu_U A n (Suc j)))"
  by (simp add: luColumn_def Let_def luUpper_step [OF assms] luLower_step [OF assms])

lemma lu_run:
  assumes "m \<le> n"
  shows "fold_err (luColumn A n) [0..<m] (lu_L A n 0, lu_U A n 0)
         = (if \<exists>j<m. j + 1 < n \<and> \<bar>doolittle_U A j j\<bar> < tolerance then Inl ZeroPivot
            else Inr (lu_L A n m, lu_U A n m))"
  using assms
proof (induction m)
  case 0
  show ?case by simp
next
  case (Suc m)
  then have m: "m < n" by simp
  show ?case
  proof (cases "\<exists>j<m. j + 1 < n \<and> \<bar>doolittle_U A j j\<bar> < tolerance")
    case True
    then have "\<exists>j<Suc m. j + 1 < n \<and> \<bar>doolittle_U A j j\<bar> < tolerance"
      using less_Suc_eq by blast
    with True Suc show ?thesis
      by (simp add: fold_err_append)
  next
    case False
    then have ex: "(\<exists>j<Suc m. j + 1 < n \<and> \<bar>doolittle_U A j j\<bar> < tolerance)
        \<longleftrightarrow> (m + 1 < n \<and> \<bar>doolittle_U A m m\<bar> < tolerance)"
      using less_Suc_eq by auto
    from False Suc have "fold_err (luColumn A n) [0..<m] (lu_L A n 0, lu_U A n 0)
        = Inr (lu_L A n m, lu_U A n m)"
      by simp
    then have "fold_err (luColumn A n) [0..<Suc m] (lu_L A n 0, lu_U A n 0)
        = luColumn A n m (lu_L A n m, lu_U A n m)"
      by (simp add: fold_err_append split: sum.splits)
    then show ?thesis
      unfolding ex by (simp add: luColumn_step [OF m])
  qed
qed

text \<open>
  The decomposition as a function of the matrix: it fails exactly when a pivot other than
  the last has magnitude below the tolerance, and otherwise returns the factors of the
  Doolittle recursion.
\<close>

lemma luDecomposition_closed:
  "luDecomposition A
   = (if \<exists>j. j + 1 < length A \<and> \<bar>doolittle_U A j j\<bar> < tolerance then Inl ZeroPivot
      else Inr (lu_L A (length A) (length A), lu_U A (length A) (length A)))"
proof -
  let ?n = "length A"
  have "(\<exists>j<?n. j + 1 < ?n \<and> \<bar>doolittle_U A j j\<bar> < tolerance)
        \<longleftrightarrow> (\<exists>j. j + 1 < ?n \<and> \<bar>doolittle_U A j j\<bar> < tolerance)"
  proof
    assume "\<exists>j. j + 1 < ?n \<and> \<bar>doolittle_U A j j\<bar> < tolerance"
    then obtain j where j: "j + 1 < ?n" "\<bar>doolittle_U A j j\<bar> < tolerance" by blast
    then have "j < ?n" by simp
    with j show "\<exists>j<?n. j + 1 < ?n \<and> \<bar>doolittle_U A j j\<bar> < tolerance" by blast
  qed blast
  moreover have "luDecomposition A
      = fold_err (luColumn A ?n) [0..<?n] (lu_L A ?n 0, lu_U A ?n 0)"
    by (simp add: luDecomposition_def Let_def lu_initial_L [of ?n A]
        lu_initial_U [of ?n A, symmetric])
  ultimately show ?thesis
    using lu_run [of ?n ?n A] by simp
qed




text \<open>
  Claim C9. For every \<open>n \<times> n\<close> matrix with \<open>n \<ge> 1\<close> whose first \<open>n - 1\<close> Doolittle pivots
  have magnitude at least \<open>1e-10\<close>, \<open>luDecomposition\<close> returns \<open>{L, U}\<close> whatever the last
  pivot \<open>U[n-1][n-1]\<close> is: the check runs only while entries below the diagonal are
  computed, and there are none below the last row.
\<close>

theorem luDecomposition_last_pivot_unchecked:
  assumes "is_matrix n n A" and "1 \<le> n"
    and "\<forall>j. j + 1 < n \<longrightarrow> tolerance \<le> \<bar>doolittle_U A j j\<bar>"
  shows "\<exists>L U. luDecomposition A = Inr (L, U)
           \<and> U ! (n - 1) ! (n - 1) = doolittle_U A (n - 1) (n - 1)"
proof -
  have len: "length A = n" by (rule is_matrix_length [OF assms(1)])
  have "\<not> (\<exists>j. j + 1 < n \<and> \<bar>doolittle_U A j j\<bar> < tolerance)"
    using assms(3) by (auto simp: not_less)
  then have "luDecomposition A = Inr (lu_L A n n, lu_U A n n)"
    by (simp add: luDecomposition_closed len)
  moreover have "lu_U A n n ! (n - 1) ! (n - 1) = doolittle_U A (n - 1) (n - 1)"
    using assms(2) by (simp add: lu_U_nth)
  ultimately show ?thesis by blast
qed

text \<open>An instance: a singular matrix whose last pivot is zero is decomposed without error.\<close>

lemma doolittle_example:
  "doolittle_U [[1, 2], [2, 4]] 0 0 = 1" "doolittle_U [[1, 2], [2, 4]] 1 1 = 0"
proof -
  show u00: "doolittle_U [[1, 2], [2, 4]] 0 0 = 1"
    by (subst doolittle_U.simps) simp
  have u01: "doolittle_U [[1, 2], [2, 4]] 0 (Suc 0) = 2"
    by (subst doolittle_U.simps) simp
  have l10: "doolittle_L [[1, 2], [2, 4]] (Suc 0) 0 = 2"
    by (subst doolittle_L.simps) (simp add: u00)
  show "doolittle_U [[1, 2], [2, 4]] 1 1 = 0"
    by (subst doolittle_U.simps) (simp add: u01 l10)
qed

lemma luDecomposition_example:
  "luDecomposition [[1, 2], [2, 4]] = Inr ([[1, 0], [2, 1]], [[1, 2], [0, 0]])"
  by (simp add: luDecomposition_def luColumn_def luUpper_def luLower_def luSum_def zeros_def
      set_entry_def tolerance_def upt_rec)

theorem luDecomposition_last_pivot_unchecked_witness:
  "luDecomposition [[1, 2], [2, 4]] = Inr ([[1, 0], [2, 1]], [[1, 2], [0, 0]])
   \<and> doolittle_U [[1, 2], [2, 4]] 0 0 = 1
   \<and> doolittle_U [[1, 2], [2, 4]] (2 - 1) (2 - 1) = 0"
proof -
  have m: "is_matrix 2 2 [[1, 2], [2, 4 :: real]]"
    by (simp add: is_matrix_def)
  have "\<forall>j. j + 1 < 2 \<longrightarrow> tolerance \<le> \<bar>doolittle_U [[1, 2], [2, 4]] j j\<bar>"
  proof (intro allI impI)
    fix j :: nat assume "j + 1 < 2"
    then have "j = 0" by simp
    then show "tolerance \<le> \<bar>doolittle_U [[1, 2], [2, 4]] j j\<bar>"
      by (simp add: doolittle_example tolerance_def)
  qed
  from luDecomposition_last_pivot_unchecked [OF m _ this]
  show ?thesis
    by (simp add: luDecomposition_example doolittle_example)
qed


section \<open>histogramEqualization\<close>

lemma histogram_uniform_row:
  assumes "v < length h" and "\<And>j. j < cols \<Longrightarrow> pixelLevel (row ! j) = v"
  shows "fold (\<lambda>j histogram.
            let v = pixelLevel (row ! j) in histogram[v := histogram ! v + 1])
          [0..<cols] h = h[v := h ! v + cols]"
proof (rule fold_upt_invariant [where P = "\<lambda>m r. r = h[v := h ! v + m]"])
  fix j s
  assume "j < cols" and "s = h[v := h ! v + j]"
  with assms show "(let v = pixelLevel (row ! j) in s[v := s ! v + 1]) = h[v := h ! v + Suc j]"
    by simp
qed simp_all

lemma histogram_uniform:
  assumes "v < length h"
    and "\<And>i j. i < rows \<Longrightarrow> j < cols \<Longrightarrow> pixelLevel (img ! i ! j) = v"
  shows "fold (\<lambda>i histogram.
            fold (\<lambda>j histogram.
              let v = pixelLevel (img ! i ! j) in histogram[v := histogram ! v + 1])
            [0..<cols] histogram)
          [0..<rows] h = h[v := h ! v + rows * cols]"
proof (rule fold_upt_invariant [where P = "\<lambda>m r. r = h[v := h ! v + m * cols]"])
  fix i s
  assume i: "i < rows" and s: "s = h[v := h ! v + i * cols]"
  have "fold (\<lambda>j histogram.
              let v = pixelLevel (img ! i ! j) in histogram[v := histogram ! v + 1])
            [0..<cols] s = s[v := s ! v + cols]"
    using assms i by (intro histogram_uniform_row) (simp_all add: s)
  then show "fold (\<lambda>j histogram.
              let v = pixelLevel (img ! i ! j) in histogram[v := histogram ! v + 1])
            [0..<cols] s = h[v := h ! v + Suc i * cols]"
    using assms(1) by (simp add: s add.commute add.left_commute)
qed simp_all

lemma cdf_loop:
  assumes "length h = 256" and "m \<le> 256" and "1 \<le> m"
  shows "fold (\<lambda>i cdf. cdf[i := cdf ! (i - 1) + h ! i]) [1..<m] ((replicate 256 0)[0 := h ! 0])
         = map (\<lambda>i. if i < m then (\<Sum>k\<le>i. h ! k) else 0) [0..<256]"
proof (rule fold_upt_invariant
    [where P = "\<lambda>m r. r = map (\<lambda>i. if i < m then (\<Sum>k\<le>i. h ! k) else 0) [0..<256]"])
  show "(replicate 256 0)[0 := h ! 0]
        = map (\<lambda>i. if i < 1 then (\<Sum>k\<le>i. h ! k) else 0) [0..<256]"
    by (auto intro!: nth_equalityI simp: nth_list_update)
next
  fix i s
  assume i: "1 \<le> i" "i < m"
    and s: "s = map (\<lambda>i'. if i' < i then (\<Sum>k\<le>i'. h ! k) else 0) [0..<256]"
  from i obtain i' where i': "i = Suc i'" by (cases i) auto
  with i assms(2) show "s[i := s ! (i - 1) + h ! i]
        = map (\<lambda>i'. if i' < Suc i then (\<Sum>k\<le>i'. h ! k) else 0) [0..<256]"
    unfolding s by (auto intro!: nth_equalityI simp: nth_list_update)
qed (use assms in simp_all)

lemma firstPositive_nth:
  "v < length cs \<Longrightarrow> \<forall>i<v. cs ! i = 0 \<Longrightarrow> cs ! v > 0 \<Longrightarrow> firstPositive cs = cs ! v"
proof (induction cs arbitrary: v)
  case Nil
  then show ?case by simp
next
  case (Cons c cs)
  show ?case
  proof (cases v)
    case 0
    with Cons.prems show ?thesis by simp
  next
    case (Suc v')
    with Cons.prems(2) have "(c # cs) ! 0 = 0" by blast
    then have c: "c = 0" by simp
    have "\<forall>i<v'. cs ! i = 0"
    proof (intro allI impI)
      fix i assume "i < v'"
      with Suc have "Suc i < v" by simp
      with Cons.prems(2) have "(c # cs) ! Suc i = 0" by blast
      then show "cs ! i = 0" by simp
    qed
    with Cons.prems Suc have "firstPositive cs = cs ! v'"
      by (intro Cons.IH) simp_all
    with c Suc show ?thesis by simp
  qed
qed

lemma pixelLevel_less: "pixelLevel p < 256"
  by (simp add: pixelLevel_def)

text \<open>
  Claim C1 on the code. The degenerate case \<open>totalPixels == cdfMin\<close> is not guarded: on a
  non-empty rectangular image whose pixels all clamp to the same level \<open>v\<close>, the lookup
  entry of \<open>v\<close> is \<open>Math.round(0 * 255 / 0)\<close>, and \<open>histogramEqualization\<close> returns \<open>NaN\<close>
  in every pixel instead of the identity mapping.
\<close>

theorem histogramEqualization_uniform:
  assumes "img \<noteq> []" and "rectangular img" and "img ! 0 \<noteq> []"
    and "\<forall>row \<in> set img. \<forall>p \<in> set row. pixelLevel p = v"
  shows "histogramEqualization img = Inr (replicate (length img) (replicate (length (img ! 0)) NaN))"
proof -
  define rows where "rows = length img"
  define cols where "cols = length (img ! 0)"
  define total where "total = rows * cols"
  have rows: "rows > 0" and cols: "cols > 0"
    using assms(1,3) by (simp_all add: rows_def cols_def)
  then have total: "total > 0" by (simp add: total_def)
  have len: "length (img ! i) = cols" if "i < rows" for i
    using that rectangular_rows [OF assms(2)] by (simp add: rows_def cols_def)
  have px: "pixelLevel (img ! i ! j) = v" if "i < rows" "j < cols" for i j
  proof -
    from that have "img ! i \<in> set img" by (simp add: rows_def)
    moreover from that len have "img ! i ! j \<in> set (img ! i)" by simp
    ultimately show ?thesis using assms(4) by blast
  qed
  have v: "v < 256"
    using px [of 0 0] rows cols pixelLevel_less [of "img ! 0 ! 0"] by simp
  define h where "h = (replicate 256 (0::nat))[v := total]"
  have hist: "fold (\<lambda>i histogram.
                fold (\<lambda>j histogram.
                  let v = pixelLevel (img ! i ! j)
                  in histogram[v := histogram ! v + 1])
                [0..<cols] histogram)
              [0..<rows] (replicate 256 (0::nat)) = h"
    using v px by (subst histogram_uniform [where v = v]) (simp_all add: h_def total_def)
  have hlen: "length h = 256" by (simp add: h_def)
  have hsum: "(\<Sum>k\<le>i. h ! k) = (if i < v then 0 else total)" if "i < 256" for i
  proof (cases "i < v")
    case True
    with that show ?thesis by (auto simp: h_def)
  next
    case False
    then have "v \<in> {..i}" by simp
    then have "(\<Sum>k\<le>i. h ! k) = h ! v + (\<Sum>k\<in>{..i} - {v}. h ! k)"
      by (subst sum.remove [of _ v]) simp_all
    also have "(\<Sum>k\<in>{..i} - {v}. h ! k) = 0"
      using that by (intro sum.neutral) (auto simp: h_def)
    finally show ?thesis using False v by (simp add: h_def)
  qed
  define cdf where "cdf = map (\<lambda>i. if i < v then 0 else total) [0..<256]"
  have cdf: "fold (\<lambda>i cdf. cdf[i := cdf ! (i - 1) + h ! i]) [1..<256]
               ((replicate 256 0)[0 := h ! 0]) = cdf"
    using hlen by (subst cdf_loop) (auto simp: cdf_def hsum)
  have cdfMin: "firstPositive cdf = total"
    using firstPositive_nth [of v cdf] v total by (simp add: cdf_def)
  have cdfv: "cdf ! v = total"
    using v by (simp add: cdf_def)
  define lookup where "lookup =
     fold (\<lambda>i lookup.
                lookup[i := js_round (js_divide ((int (cdf ! i) - int total) * 255)
                                                (int total - int total))])
              [0..<256] (replicate 256 (Finite 0))"
  have lookup: "lookup ! v = NaN"
    using v unfolding lookup_def
    by (subst fold_tabulate) (simp_all add: cdfv js_divide_def)
  have "histogramEqualization img
        = Inr (fold (\<lambda>i result.
                  fold (\<lambda>j result.
                    let v = pixelLevel (img ! i ! j)
                    in set_entry result i j (lookup ! v))
                  [0..<cols] result)
                [0..<rows] (replicate rows (replicate cols (Finite 0))))"
    using assms(1)
    unfolding histogramEqualization_def Let_def rows_def [symmetric] cols_def [symmetric]
      hist [unfolded Let_def] cdf cdfMin total_def [symmetric] lookup_def [symmetric]
    by (simp only: if_False)
  also have "fold (\<lambda>i result.
                  fold (\<lambda>j result.
                    let v = pixelLevel (img ! i ! j)
                    in set_entry result i j (lookup ! v))
                  [0..<cols] result)
                [0..<rows] (replicate rows (replicate cols (Finite 0)))
        = fold (\<lambda>i result. fold (\<lambda>j result. set_entry result i j NaN) [0..<cols] result)
                [0..<rows] (replicate rows (replicate cols (Finite 0)))"
  proof (rule fold_cong [OF refl refl], rule ext, rule fold_cong [OF refl refl])
    fix i j
    assume "i \<in> set [0..<rows]" "j \<in> set [0..<cols]"
    then show "(\<lambda>result. let v = pixelLevel (img ! i ! j) in set_entry result i j (lookup ! v))
        = (\<lambda>result. set_entry result i j NaN)"
      by (simp add: px lookup)
  qed
  also have "\<dots> = map (\<lambda>i. map (\<lambda>j. NaN) [0..<cols]) [0..<rows]"
    by (rule fill_matrix) simp_all
  also have "\<dots> = replicate rows (replicate cols NaN)"
    by (auto intro!: nth_equalityI)
  finally show ?thesis
    by (simp add: rows_def cols_def)
qed

text \<open>The failing input \<^verbatim>\<open>[[7, 7], [7, 7]]\<close>.\<close>

theorem histogramEqualization_uniform_example:
  "histogramEqualization [[7, 7], [7, 7]] = Inr [[NaN, NaN], [NaN, NaN]]"
  using histogramEqualization_uniform [of "[[7, 7], [7, 7]]" 7]
  by (simp add: rectangular_def pixelLevel_def math_round_def eval_nat_numeral)

section \<open>convolution1d\<close>

lemma conv_inner:
  assumes "i < length r0"
  shows "fold (\<lambda>j result.
            if int i - int j \<ge> 0 \<and> int i - int j < int (length signal)
            then result[i := result ! i + signal ! nat (int i - int j) * kernel' ! j]
            else result) [0..<m] r0
         = r0[i := r0 ! i + (\<Sum>j<m. conv_term signal kernel' i j)]"
  (is "fold ?f _ _ = _")
proof (rule fold_upt_invariant
    [where P = "\<lambda>m r. r = r0[i := r0 ! i + (\<Sum>j<m. conv_term signal kernel' i j)]"])
  show "r0 = r0[i := r0 ! i + (\<Sum>j<0. conv_term signal kernel' i j)]" by simp
next
  fix j s
  assume "s = r0[i := r0 ! i + (\<Sum>j<j. conv_term signal kernel' i j)]"
  then show "?f j s = r0[i := r0 ! i + (\<Sum>j<Suc j. conv_term signal kernel' i j)]"
    using assms by (auto simp: conv_term_def nat_diff_distrib' algebra_simps)
qed simp

lemma conv_outer:
  assumes "n \<le> length r0"
  shows "fold (\<lambda>i result. result[i := result ! i + g i]) [0..<n] r0
         = map (\<lambda>i. if i < n then r0 ! i + g i else r0 ! i) [0..<length r0]"
  (is "fold ?f _ _ = _")
proof (rule fold_upt_invariant
    [where P = "\<lambda>n r. r = map (\<lambda>i. if i < n then r0 ! i + g i else r0 ! i) [0..<length r0]"])
  show "r0 = map (\<lambda>i. if i < 0 then r0 ! i + g i else r0 ! i) [0..<length r0]"
    by (simp add: map_nth)
next
  fix i s
  assume "i < n" and s: "s = map (\<lambda>i'. if i' < i then r0 ! i' + g i' else r0 ! i') [0..<length r0]"
  with assms have "i < length r0" by simp
  then show "?f i s = map (\<lambda>i'. if i' < Suc i then r0 ! i' + g i' else r0 ! i') [0..<length r0]"
    unfolding s by (auto intro!: nth_equalityI simp: nth_list_update)
qed simp

text \<open>
  Claim C6, as amended. For every signal and kernel that are not both empty,
  \<open>convolution1d\<close> succeeds and returns a result of length
  \<open>len(signal) + len(kernel) - 1\<close> whose entry \<open>i\<close> is the sum over \<open>j\<close> of
  \<open>kernel[j] * signal[i - j]\<close>, an index \<open>i - j\<close> outside the signal contributing zero.
\<close>

theorem convolution1d_full:
  assumes "signal \<noteq> [] \<or> kernel' \<noteq> []"
  shows "\<exists>result. convolution1d signal kernel' = Inr result
           \<and> length result = length signal + length kernel' - 1
           \<and> (\<forall>i < length result.
                 result ! i = (\<Sum>j < length kernel'.
                    if j \<le> i \<and> i - j < length signal then kernel' ! j * signal ! (i - j) else 0))"
proof -
  define n where "n = length signal + length kernel' - 1"
  have pos: "\<not> int (length signal) + int (length kernel') - 1 < 0"
    using assms by (cases signal; cases kernel') auto
  have n: "nat (int (length signal) + int (length kernel') - 1) = n"
    using assms unfolding n_def by (cases signal; cases kernel') auto
  define g where "g i = (\<Sum>j<length kernel'. conv_term signal kernel' i j)" for i
  let ?F = "\<lambda>i result.
              fold (\<lambda>j result.
                if int i - int j \<ge> 0 \<and> int i - int j < int (length signal)
                then result[i := result ! i + signal ! nat (int i - int j) * kernel' ! j]
                else result)
              [0..<length kernel'] result"
  let ?G = "\<lambda>i result. result[i := result ! i + g i]"
  have loop: "fold ?F [0..<n] (replicate n 0) = fold ?G [0..<n] (replicate n 0)"
  proof (rule fold_upt_invariant
      [where P = "\<lambda>m r. r = fold ?G [0..<m] (replicate n 0)"])
    fix i s
    assume "i < n" and s: "s = fold ?G [0..<i] (replicate n 0)"
    have len: "length s = n"
      unfolding s by (rule fold_upt_invariant [where P = "\<lambda>m r. length r = n"]) auto
    with \<open>i < n\<close> have "?F i s = s[i := s ! i + g i]"
      unfolding g_def by (intro conv_inner) simp
    then show "?F i s = fold ?G [0..<Suc i] (replicate n 0)"
      by (simp add: s)
  qed simp_all
  have "convolution1d signal kernel' = Inr (fold ?F [0..<n] (replicate n 0))"
    unfolding convolution1d_def Let_def n nat_int using pos by (simp only: if_False)
  moreover have "fold ?G [0..<n] (replicate n 0) = map g [0..<n]"
    by (subst conv_outer) (auto intro!: nth_equalityI)
  ultimately show ?thesis
    unfolding loop by (auto simp: n_def g_def conv_term_def)
qed

text \<open>The instance of the spec: \<^verbatim>\<open>convolution1d([1,2,3],[1]) == [1,2,3]\<close>.\<close>

theorem convolution1d_full_witness:
  "convolution1d [1, 2, 3] [1] = Inr [1, 2, 3]
   \<and> length [1, 2, 3 :: real] = length [1, 2, 3 :: real] + length [1 :: real] - 1"
  using convolution1d_full [of "[1, 2, 3]" "[1]"]
  by (simp add: convolution1d_def upt_rec eval_nat_numeral)

text \<open>
  Claim C6 as stated, for lengths \<open>\<ge> 0\<close>, fails when both arguments are empty:
  \<open>outputLen\<close> is \<open>-1\<close> and \<^verbatim>\<open>Array(-1)\<close> throws a RangeError.
\<close>

theorem convolution1d_empty_fails: "convolution1d [] [] = Inl RangeError"
  by (simp add: convolution1d_def)

section \<open>fft and ifft\<close>

lemma length_splitEvenOdd:
  "length (fst (splitEvenOdd x)) = (length x + 1) div 2"
  "length (snd (splitEvenOdd x)) = length x div 2"
proof -
  let ?f = "\<lambda>i (evenPart, oddPart).
             if i mod 2 = 0 then (evenPart @ [x ! i], oddPart)
             else (evenPart, oddPart @ [x ! i])"
  have "(\<lambda>m s. length (fst s) = (m + 1) div 2 \<and> length (snd s) = m div 2)
          (length x) (fold ?f [0..<length x] ([], []))"
  proof (rule fold_upt_invariant
      [where P = "\<lambda>m s. length (fst s) = (m + 1) div 2 \<and> length (snd s) = m div 2"])
    fix i and s :: "real list \<times> real list"
    assume "length (fst s) = (i + 1) div 2 \<and> length (snd s) = i div 2"
    then show "length (fst (?f i s)) = (Suc i + 1) div 2 \<and> length (snd (?f i s)) = Suc i div 2"
      by (cases s) (auto simp: mod_2_eq_odd elim!: evenE oddE)
  qed simp_all
  then show "length (fst (splitEvenOdd x)) = (length x + 1) div 2"
    and "length (snd (splitEvenOdd x)) = length x div 2"
    by (simp_all add: splitEvenOdd_def)
qed

lemma length_fftCombine:
  "length (real_part (fftCombine n fftEven fftOdd)) = n"
  "length (imag_part (fftCombine n fftEven fftOdd)) = n"
proof -
  let ?f = "\<lambda>k (re, im).
                   let angle = - 2 * pi * real k / real n;
                       c = cos angle;
                       s = sin angle;
                       tReal = c * real_part fftOdd ! k - s * imag_part fftOdd ! k;
                       tImag = c * imag_part fftOdd ! k + s * real_part fftOdd ! k;
                       re = re[k := real_part fftEven ! k + tReal];
                       im = im[k := imag_part fftEven ! k + tImag];
                       re = re[k + n div 2 := real_part fftEven ! k - tReal];
                       im = im[k + n div 2 := imag_part fftEven ! k - tImag]
                   in (re, im)"
  obtain re im where p: "fold ?f [0..<n div 2] (replicate n 0, replicate n 0) = (re, im)"
    by (cases "fold ?f [0..<n div 2] (replicate n 0, replicate n 0)")
  have "(\<lambda>m s. length (fst s) = n \<and> length (snd s) = n)
          (n div 2) (fold ?f [0..<n div 2] (replicate n 0, replicate n 0))"
  proof (rule fold_upt_invariant [where P = "\<lambda>m s. length (fst s) = n \<and> length (snd s) = n"])
    fix i and s :: "real list \<times> real list"
    assume "length (fst s) = n \<and> length (snd s) = n"
    then show "length (fst (?f i s)) = n \<and> length (snd (?f i s)) = n"
      by (cases s) (simp add: Let_def)
  qed simp_all
  then have "length re = n" "length im = n"
    unfolding p by simp_all
  then show "length (real_part (fftCombine n fftEven fftOdd)) = n"
    and "length (imag_part (fftCombine n fftEven fftOdd)) = n"
    unfolding fftCombine_def p by simp_all
qed

lemma fft_returns_nonempty:
  assumes "fft x = Some y"
  shows "x \<noteq> []"
proof (rule fft.raw_induct [where P = "\<lambda>x y. x \<noteq> []", OF _ assms])
  fix f :: "real list \<Rightarrow> (error + spectrum) option" and x y
  assume IH: "\<And>x y. f x = Some y \<Longrightarrow> x \<noteq> []"
    and step: "(let n = length x in
      if n = 1 then Some (Inr \<lparr>real_part = [x ! 0], imag_part = [0]\<rparr>)
      else if n mod 2 \<noteq> 0 then Some (Inl InvalidLength)
      else
        Option.bind (f (fst (splitEvenOdd x))) (\<lambda>r.
          case r of
            Inl e \<Rightarrow> Some (Inl e)
          | Inr fftEven \<Rightarrow>
              Option.bind (f (snd (splitEvenOdd x))) (\<lambda>r.
                case r of
                  Inl e \<Rightarrow> Some (Inl e)
                | Inr fftOdd \<Rightarrow> Some (Inr (fftCombine n fftEven fftOdd))))) = Some y"
  show "x \<noteq> []"
  proof
    assume "x = []"
    with step obtain r where "f [] = Some r"
      by (auto simp: splitEvenOdd_def Option.bind_eq_Some_conv)
    with IH show False by blast
  qed
qed

text \<open>
  Claim C2 at the empty list. The length 0 is neither 1 nor a power of two, yet \<open>fft([])\<close>
  does not raise \<open>InvalidLength\<close>: \<open>0 % 2 === 0\<close> passes the length check, both halves
  of the empty list are empty, and the call recurses on \<open>fft([])\<close> without end.
\<close>

theorem fft_empty_diverges: "fft [] = None"
  using fft_returns_nonempty [of "[]"] by (cases "fft []") auto

text \<open>
  On every non-empty list the claim holds: \<open>fft\<close> raises \<open>InvalidLength\<close> exactly when the
  length is not a power of two, and otherwise returns real and imaginary parts as long as
  the input.
\<close>

lemma fft_power_of_two:
  "length x = 2 ^ k \<Longrightarrow>
   \<exists>r. fft x = Some (Inr r) \<and> length (real_part r) = length x \<and> length (imag_part r) = length x"
proof (induction k arbitrary: x)
  case 0
  then show ?case by (subst fft.simps) simp
next
  case (Suc k)
  have e: "length (fst (splitEvenOdd x)) = 2 ^ k" and o: "length (snd (splitEvenOdd x)) = 2 ^ k"
    using Suc.prems by (simp_all add: length_splitEvenOdd)
  from Suc.IH [OF e] obtain re where re: "fft (fst (splitEvenOdd x)) = Some (Inr re)" by blast
  from Suc.IH [OF o] obtain ro where ro: "fft (snd (splitEvenOdd x)) = Some (Inr ro)" by blast
  have "length x \<noteq> 1" "length x mod 2 = 0"
    using Suc.prems by simp_all
  then have "fft x = Some (Inr (fftCombine (length x) re ro))"
    by (subst fft.simps) (simp add: re ro Let_def)
  then show ?case
    by (simp add: length_fftCombine)
qed

lemma fft_not_power_of_two:
  "x \<noteq> [] \<Longrightarrow> \<forall>k. length x \<noteq> 2 ^ k \<Longrightarrow> fft x = Some (Inl InvalidLength)"
proof (induction "length x" arbitrary: x rule: less_induct)
  case less
  have n1: "length x \<noteq> 1"
    using less.prems(2) [rule_format, of 0] by simp
  show ?case
  proof (cases "length x mod 2 = 0")
    case False
    with n1 show ?thesis by (subst fft.simps) simp
  next
    case True
    let ?e = "fst (splitEvenOdd x)"
    have len: "length ?e = length x div 2"
      using True by (simp add: length_splitEvenOdd) presburger
    have pos: "length x > 0" using less.prems(1) by simp
    have double: "length x = 2 * (length x div 2)"
      using True by presburger
    have lt: "length ?e < length x"
      unfolding len using pos by presburger
    have "length ?e > 0"
      unfolding len using pos True by presburger
    then have ne: "?e \<noteq> []" by auto
    have "length ?e \<noteq> 2 ^ k" for k
    proof
      assume "length ?e = 2 ^ k"
      with double have "length x = 2 ^ Suc k"
        unfolding len by simp
      with less.prems(2) show False by blast
    qed
    then have "\<forall>k. length ?e \<noteq> 2 ^ k" by blast
    from less.hyps [OF lt ne this] have "fft ?e = Some (Inl InvalidLength)" .
    with n1 True show ?thesis
      by (subst fft.simps) (simp add: Let_def)
  qed
qed

lemma fft_nonempty:
  assumes "x \<noteq> []"
  shows "(fft x = Some (Inl InvalidLength)) = (\<forall>k. length x \<noteq> 2 ^ k)"
    and "(\<exists>k. length x = 2 ^ k) \<Longrightarrow>
         \<exists>r. fft x = Some (Inr r) \<and> length (real_part r) = length x
                \<and> length (imag_part r) = length x"
proof -
  show "(fft x = Some (Inl InvalidLength)) = (\<forall>k. length x \<noteq> 2 ^ k)"
  proof
    assume err: "fft x = Some (Inl InvalidLength)"
    show "\<forall>k. length x \<noteq> 2 ^ k"
    proof (intro allI notI)
      fix k assume "length x = 2 ^ k"
      from fft_power_of_two [OF this] err show False by auto
    qed
  next
    assume "\<forall>k. length x \<noteq> 2 ^ k"
    with assms show "fft x = Some (Inl InvalidLength)"
      by (rule fft_not_power_of_two)
  qed
next
  assume "\<exists>k. length x = 2 ^ k"
  then obtain k where "length x = 2 ^ k" ..
  then show "\<exists>r. fft x = Some (Inr r) \<and> length (real_part r) = length x
                \<and> length (imag_part r) = length x"
    by (rule fft_power_of_two)
qed

text \<open>
  Claim C8. For every spectrum, \<open>ifft\<close> is the forward transform of the real component
  with the real part of the result divided by \<open>n = len(spectrum.real)\<close>; the imaginary
  component of the argument has no effect on the result.
\<close>

theorem ifft_refines:
  "ifft X = ifft_spec (real_part X) \<and> ifft (X\<lparr>imag_part := im\<rparr>) = ifft X"
proof -
  have "map (\<lambda>(i, r). r) (enumerate 0 xs) = xs" for xs :: "real list"
    by (simp add: case_prod_unfold)
  then have "ifft Y = ifft_spec (real_part Y)" for Y
    by (cases "fft (real_part Y)")
       (auto simp: ifft_def ifft_spec_def Let_def split: sum.splits)
  then show ?thesis by simp
qed

text \<open>An instance: the imaginary component \<open>[7, 7]\<close> is ignored.\<close>

lemma ifft_example:
  "ifft \<lparr>real_part = [4, 0], imag_part = [7, 7]\<rparr> = Some (Inr [2, 2])"
  apply (simp add: ifft_def)
  apply (subst fft.simps)
  apply (simp add: splitEvenOdd_def upt_rec)
  apply (subst fft.simps, simp)
  apply (subst fft.simps, simp add: fftCombine_def)
  done

section \<open>imageRotation\<close>

text \<open>
  Claim C10, as amended. For every rectangular image with at least one row,
  \<open>imageRotation(image, 0)\<close> returns a matrix equal to the input: with \<open>cos 0 = 1\<close> and
  \<open>sin 0 = 0\<close> every destination pixel is mapped to itself, and rounding an integer
  coordinate is exact.
\<close>

theorem imageRotation_zero:
  assumes "img \<noteq> []" and "rectangular img"
  shows "imageRotation img 0 = Inr img"
proof -
  define rows where "rows = length img"
  define cols where "cols = length (img ! 0)"
  let ?body = "\<lambda>y x result.
     if math_round (cos (0 * pi / 180) * (real x - real cols / 2)
                    + sin (0 * pi / 180) * (real y - real rows / 2) + real cols / 2) \<ge> 0
        \<and> math_round (cos (0 * pi / 180) * (real x - real cols / 2)
                    + sin (0 * pi / 180) * (real y - real rows / 2) + real cols / 2) < int cols
        \<and> math_round (- sin (0 * pi / 180) * (real x - real cols / 2)
                    + cos (0 * pi / 180) * (real y - real rows / 2) + real rows / 2) \<ge> 0
        \<and> math_round (- sin (0 * pi / 180) * (real x - real cols / 2)
                    + cos (0 * pi / 180) * (real y - real rows / 2) + real rows / 2) < int rows
     then set_entry result y x
            (img ! nat (math_round (- sin (0 * pi / 180) * (real x - real cols / 2)
                    + cos (0 * pi / 180) * (real y - real rows / 2) + real rows / 2))
                 ! nat (math_round (cos (0 * pi / 180) * (real x - real cols / 2)
                    + sin (0 * pi / 180) * (real y - real rows / 2) + real cols / 2)))
     else result"
  have unfold: "imageRotation img 0
      = Inr (fold (\<lambda>y result. fold (\<lambda>x result. ?body y x result) [0..<cols] result)
               [0..<rows] (zeros rows cols))"
    using assms(1) unfolding imageRotation_def Let_def rows_def cols_def by (simp only: if_False)
  have body: "?body y x result = set_entry result y x (img ! y ! x)"
    if "x < cols" and "y < rows" for y x result
    using that by simp
  have inner: "fold (\<lambda>x result. ?body y x result) [0..<cols] result
             = fold (\<lambda>x result. set_entry result y x (img ! y ! x)) [0..<cols] result"
    if "y < rows" for y result
  proof (rule fold_cong [OF refl refl])
    fix x assume "x \<in> set [0..<cols]"
    with that show "?body y x = (\<lambda>result. set_entry result y x (img ! y ! x))"
      by (intro ext body) auto
  qed
  have "fold (\<lambda>y result. fold (\<lambda>x result. ?body y x result) [0..<cols] result)
               [0..<rows] (zeros rows cols)
        = fold (\<lambda>y result. fold (\<lambda>x result. set_entry result y x (img ! y ! x)) [0..<cols] result)
               [0..<rows] (zeros rows cols)"
  proof (rule fold_cong [OF refl refl])
    fix y assume "y \<in> set [0..<rows]"
    then show "(\<lambda>result. fold (\<lambda>x result. ?body y x result) [0..<cols] result)
        = (\<lambda>result. fold (\<lambda>x result. set_entry result y x (img ! y ! x)) [0..<cols] result)"
      by (intro ext inner) auto
  qed
  also have "\<dots> = map (\<lambda>y. map (\<lambda>x. img ! y ! x) [0..<cols]) [0..<rows]"
    by (rule fill_matrix) (simp_all add: zeros_def)
  also have "\<dots> = img"
    using rectangular_rows [OF assms(2)]
    by (auto intro!: nth_equalityI simp: rows_def cols_def)
  finally show ?thesis
    by (simp add: unfold)
qed

theorem imageRotation_zero_witness:
  "imageRotation [[1, 2, 3], [4, 5, 6]] 0 = Inr [[1, 2, 3], [4, 5, 6]]"
  using imageRotation_zero [of "[[1, 2, 3], [4, 5, 6]]"]
  by (simp add: rectangular_def)

text \<open>
  Claim C10 as stated, for every rectangular image, fails for the image with no rows:
  \<^verbatim>\<open>image[0].length\<close> reads a property of \<^verbatim>\<open>undefined\<close> and throws a TypeError.
\<close>

theorem imageRotation_empty_fails: "imageRotation [] 0 = Inl TypeError"
  by (simp add: imageRotation_def)

end
